theory Spec2Isabelle
  imports Complex_Main "HOL-Library.Monad_Syntax" "HOL-Library.Multiset"
begin

section \<open>Genetic travelling salesman: the embedding\<close>

text \<open>
  The C++ sources are \<^verbatim>\<open>genetic_utils.h\<close> (ranking, promotion of the elite rows, crossover
  with mutation, reproduction) and \<^verbatim>\<open>gen_tsp_detailed.cpp\<close> (the generation loop
  \<^verbatim>\<open>genetic_tsp\<close> and the argument checks of \<^verbatim>\<open>main\<close>).

  Conventions of the embedding.
  \<^item> A C++ \<^verbatim>\<open>int\<close> that holds data (a node, a cost, a rank) is an \<^typ>\<open>int\<close>; the
    embedding does not bound it, so it describes the runs in which no \<^verbatim>\<open>int\<close>
    arithmetic overflows (overflow of a signed \<^verbatim>\<open>int\<close> is undefined in C++).
    Sizes and loop counters (\<^verbatim>\<open>numNodes\<close>, \<^verbatim>\<open>population\<close>, \<^verbatim>\<open>best_num\<close>,
    \<^verbatim>\<open>i\<close>, \<^verbatim>\<open>k\<close>) are never negative in a run that passed the checks of
    \<^verbatim>\<open>main\<close> and are of type \<^typ>\<open>nat\<close>.
  \<^item> A C++ \<^verbatim>\<open>double\<close> is a \<^typ>\<open>real\<close>: products, quotients and the square root are
    exact, rounding is not modelled.
  \<^item> An array is a list. A read or a write outside the array (undefined in C++) is the
    result \<open>None\<close>, and so is an integer division by zero.
  \<^item> \<^verbatim>\<open>rand()\<close> reads a global generator: the sequence of the values it is going to
    return is an argument (a list of naturals), each call takes the first one, and the
    rest is returned. The result is \<open>None\<close> when the list is used up before the code is
    done, so a loop that redraws is a structural recursion on that list.
  \<^item> The \<^verbatim>\<open>omp parallel for\<close> of \<^verbatim>\<open>generate\<close> is read as the sequential loop.
\<close>

subsection \<open>Arrays and the random source\<close>

definition rd :: "'a list \<Rightarrow> nat \<Rightarrow> 'a option" where
  "rd a i = (if i < length a then Some (a ! i) else None)"

definition wr :: "'a list \<Rightarrow> nat \<Rightarrow> 'a \<Rightarrow> 'a list option" where
  "wr a i v = (if i < length a then Some (a[i := v]) else None)"

text \<open>A read at an index computed in \<^verbatim>\<open>int\<close> arithmetic from the contents of an array.\<close>

definition rdi :: "'a list \<Rightarrow> int \<Rightarrow> 'a option" where
  "rdi a i = (if 0 \<le> i \<and> i < int (length a) then Some (a ! nat i) else None)"

text \<open>
  A cell of an array of \<^verbatim>\<open>double\<close> allocated by \<^verbatim>\<open>new\<close> holds no value until it is
  written: such an array is a list of options, and reading a cell never written is
  \<open>None\<close> like a read outside the array.
\<close>

definition rd_init :: "'a option list \<Rightarrow> nat \<Rightarrow> 'a option" where
  "rd_init a i = (if i < length a then a ! i else None)"

text \<open>
  \<^verbatim>\<open>copy(src + s, src + s + n, dst + d)\<close> of the standard library, for two arrays
  that do not overlap: \<open>n\<close> cells of \<open>src\<close> from index \<open>s\<close> replace the cells of
  \<open>dst\<close> from index \<open>d\<close>.
\<close>

definition copy_range :: "'a list \<Rightarrow> int \<Rightarrow> nat \<Rightarrow> 'a list \<Rightarrow> nat \<Rightarrow> 'a list option" where
  "copy_range src s n dst d =
     (if 0 \<le> s \<and> nat s + n \<le> length src \<and> d + n \<le> length dst
      then Some (take d dst @ take n (drop (nat s) src) @ drop (d + n) dst)
      else None)"

text \<open>\<^verbatim>\<open>rand() % m\<close>.\<close>

fun rand_mod :: "nat \<Rightarrow> nat list \<Rightarrow> (nat \<times> nat list) option" where
  "rand_mod m [] = None"
| "rand_mod m (r # rs) = (if m = 0 then None else Some (r mod m, rs))"

text \<open>Row \<open>r\<close> of a matrix stored row after row with \<open>numNodes\<close> columns.\<close>

definition row :: "'a list \<Rightarrow> nat \<Rightarrow> nat \<Rightarrow> 'a list" where
  "row g numNodes r = take numNodes (drop (r * numNodes) g)"

subsection \<open>\<^verbatim>\<open>stdDev\<close> (genetic\_utils.h, lines 31 to 43)\<close>

function sum_loop :: "real option list \<Rightarrow> nat \<Rightarrow> nat \<Rightarrow> real \<Rightarrow> real option" where
  "sum_loop array len i avg =
     (if i < len then
        do { x \<leftarrow> rd_init array i;
             sum_loop array len (i + 1) (avg + x) }
      else Some avg)"
  by pat_completeness auto
termination
  by (relation "measure (\<lambda>(array, len, i, avg). len - i)") auto

declare sum_loop.simps [simp del]

function var_loop :: "real option list \<Rightarrow> nat \<Rightarrow> real \<Rightarrow> nat \<Rightarrow> real \<Rightarrow> real option" where
  "var_loop array len avg i var =
     (if i < len then
        do { x \<leftarrow> rd_init array i;
             var_loop array len avg (i + 1) (var + (x - avg) * (x - avg)) }
      else Some var)"
  by pat_completeness auto
termination
  by (relation "measure (\<lambda>(array, len, avg, i, var). len - i)") auto

declare var_loop.simps [simp del]

definition stdDev :: "real option list \<Rightarrow> nat \<Rightarrow> real option" where
  "stdDev array len =
     do { s \<leftarrow> sum_loop array len 0 0;
          let avg = s / real len;
          var \<leftarrow> var_loop array len avg 0 0;
          Some (sqrt (var / real len)) }"

subsection \<open>\<^verbatim>\<open>sort_vector\<close> (genetic\_utils.h, lines 53 to 67)\<close>

text \<open>
  The \<^verbatim>\<open>while\<close> loop, with \<open>j\<close> an \<^typ>\<open>int\<close> as in the source (it ends at \<open>-1\<close> when the
  key is smaller than every cost before it), followed by the two stores of the key.
  The indices stay below the index \<open>i\<close> of the key, which \<^verbatim>\<open>sort_vector\<close> keeps below
  \<^verbatim>\<open>population\<close>.
\<close>

function shift_loop :: "int list \<Rightarrow> int list \<Rightarrow> int \<Rightarrow> int \<Rightarrow> int \<Rightarrow> int list \<times> int list" where
  "shift_loop generation_rank generation_cost key key_idx j =
     (if j \<ge> 0 \<and> generation_cost ! nat j > key then
        shift_loop (generation_rank[nat (j + 1) := generation_rank ! nat j])
                   (generation_cost[nat (j + 1) := generation_cost ! nat j]) key key_idx (j - 1)
      else (generation_rank[nat (j + 1) := key_idx], generation_cost[nat (j + 1) := key]))"
  by pat_completeness auto
termination
  by (relation "measure (\<lambda>(generation_rank, generation_cost, key, key_idx, j). nat (j + 1))") auto

declare shift_loop.simps [simp del]

function sort_loop :: "int list \<Rightarrow> int list \<Rightarrow> nat \<Rightarrow> nat \<Rightarrow> int list \<times> int list" where
  "sort_loop generation_rank generation_cost population i =
     (if i < population then
        (let key = generation_cost ! i;
             key_idx = generation_rank ! i;
             (generation_rank', generation_cost') =
                shift_loop generation_rank generation_cost key key_idx (int i - 1)
         in sort_loop generation_rank' generation_cost' population (i + 1))
      else (generation_rank, generation_cost))"
  by pat_completeness auto
termination
  by (relation "measure (\<lambda>(generation_rank, generation_cost, population, i). population - i)") auto

declare sort_loop.simps [simp del]

definition sort_vector :: "int list \<Rightarrow> int list \<Rightarrow> nat \<Rightarrow> int list \<times> int list" where
  "sort_vector generation_rank generation_cost population =
     sort_loop generation_rank generation_cost population 1"

subsection \<open>\<^verbatim>\<open>rank_generation\<close> (genetic\_utils.h, lines 80 to 104)\<close>

text \<open>The loop over \<open>j\<close>: the cost of the adjacent cells of row \<open>i\<close> is added to \<^verbatim>\<open>generation_cost[i]\<close>.\<close>

function adjacent_loop ::
  "int list \<Rightarrow> int list \<Rightarrow> int list \<Rightarrow> nat \<Rightarrow> nat \<Rightarrow> nat \<Rightarrow> int \<Rightarrow> int list option" where
  "adjacent_loop generation_cost generation cost_matrix numNodes i j destination =
     (if int j < int numNodes - 1 then
        do { let source = destination;
             destination' \<leftarrow> rd generation (i * numNodes + j + 1);
             w \<leftarrow> rdi cost_matrix (source * int numNodes + destination');
             c \<leftarrow> rd generation_cost i;
             generation_cost' \<leftarrow> wr generation_cost i (c + w);
             adjacent_loop generation_cost' generation cost_matrix numNodes i (j + 1) destination' }
      else Some generation_cost)"
  by pat_completeness auto
termination
  by (relation "measure (\<lambda>(generation_cost, generation, cost_matrix, numNodes, i, j, destination). numNodes - j)") auto

declare adjacent_loop.simps [simp del]

text \<open>The loop over \<open>i\<close>. The entry \<^verbatim>\<open>generation_cost[i]\<close> is read and added to: the source has
  no store that resets it.\<close>

function cost_loop ::
  "int list \<Rightarrow> int list \<Rightarrow> int list \<Rightarrow> int list \<Rightarrow> nat \<Rightarrow> nat \<Rightarrow> nat \<Rightarrow> (int list \<times> int list) option" where
  "cost_loop generation_rank generation_cost generation cost_matrix numNodes population i =
     (if i < population then
        do { source \<leftarrow> rdi generation (int (i * numNodes) + int numNodes - 1);
             destination \<leftarrow> rd generation (i * numNodes);
             w \<leftarrow> rdi cost_matrix (source * int numNodes + destination);
             c \<leftarrow> rd generation_cost i;
             generation_cost1 \<leftarrow> wr generation_cost i (c + w);
             generation_cost2 \<leftarrow> adjacent_loop generation_cost1 generation cost_matrix numNodes i 0 destination;
             generation_rank' \<leftarrow> wr generation_rank i (int i);
             cost_loop generation_rank' generation_cost2 generation cost_matrix numNodes population (i + 1) }
      else Some (generation_rank, generation_cost))"
  by pat_completeness auto
termination
  by (relation "measure (\<lambda>(generation_rank, generation_cost, generation, cost_matrix, numNodes, population, i). population - i)") auto

declare cost_loop.simps [simp del]

definition rank_generation ::
  "int list \<Rightarrow> int list \<Rightarrow> int list \<Rightarrow> int list \<Rightarrow> nat \<Rightarrow> nat \<Rightarrow> nat \<Rightarrow> (int list \<times> int list) option" where
  "rank_generation generation_rank generation_cost generation cost_matrix numNodes population best_num =
     do { (generation_rank', generation_cost') \<leftarrow>
            cost_loop generation_rank generation_cost generation cost_matrix numNodes population 0;
          Some (sort_vector generation_rank' generation_cost' population) }"

subsection \<open>\<^verbatim>\<open>move_top\<close> (genetic\_utils.h, lines 115 to 124)\<close>

function move_loop :: "int list \<Rightarrow> int list \<Rightarrow> int list \<Rightarrow> nat \<Rightarrow> nat \<Rightarrow> nat \<Rightarrow> int list option" where
  "move_loop generation_rank generation generation_copy numNodes best_num i =
     (if i < best_num then
        do { r \<leftarrow> rd generation_rank i;
             generation_copy' \<leftarrow>
               copy_range generation (r * int numNodes) numNodes generation_copy (i * numNodes);
             move_loop generation_rank generation generation_copy' numNodes best_num (i + 1) }
      else Some generation_copy)"
  by pat_completeness auto
termination
  by (relation "measure (\<lambda>(generation_rank, generation, generation_copy, numNodes, best_num, i). best_num - i)") auto

declare move_loop.simps [simp del]

text \<open>
  \<^verbatim>\<open>generation\<close> and \<^verbatim>\<open>generation_copy\<close> are references to pointers, exchanged at the
  end: the result is the pair of the arrays they point to after the call, \<^verbatim>\<open>generation\<close>
  first.
\<close>

definition move_top ::
  "int list \<Rightarrow> int list \<Rightarrow> int list \<Rightarrow> nat \<Rightarrow> nat \<Rightarrow> (int list \<times> int list) option" where
  "move_top generation_rank generation generation_copy numNodes best_num =
     do { generation_copy' \<leftarrow> move_loop generation_rank generation generation_copy numNodes best_num 0;
          Some (generation_copy', generation) }"

subsection \<open>\<^verbatim>\<open>crossover_firstHalf_withMutation\<close> (genetic\_utils.h, lines 137 to 169)\<close>

text \<open>The first loop: the first half of \<^verbatim>\<open>parent1\<close>. \<^verbatim>\<open>son\<close> is the index of the first
  cell of the child's row, \<^verbatim>\<open>parent1\<close> and \<^verbatim>\<open>parent2\<close> are row numbers.\<close>

function first_half_loop ::
  "int list \<Rightarrow> int set \<Rightarrow> nat \<Rightarrow> nat \<Rightarrow> nat \<Rightarrow> nat \<Rightarrow> nat \<Rightarrow> (int list \<times> int set) option" where
  "first_half_loop generation nodes parent1 son numNodes half j =
     (if j < half then
        do { elem \<leftarrow> rd generation (parent1 * numNodes + j);
             generation' \<leftarrow> wr generation (son + j) elem;
             first_half_loop generation' (insert elem nodes) parent1 son numNodes half (j + 1) }
      else Some (generation, nodes))"
  by pat_completeness auto
termination
  by (relation "measure (\<lambda>(generation, nodes, parent1, son, numNodes, half, j). half - j)") auto

declare first_half_loop.simps [simp del]

text \<open>The second loop: the nodes of \<^verbatim>\<open>parent2\<close> that are not in \<^verbatim>\<open>nodes\<close>; \<open>j\<close> goes on from
  the value the first loop left.\<close>

function remaining_loop ::
  "int list \<Rightarrow> int set \<Rightarrow> nat \<Rightarrow> nat \<Rightarrow> nat \<Rightarrow> nat \<Rightarrow> nat \<Rightarrow> int list option" where
  "remaining_loop generation nodes parent2 son numNodes j k =
     (if k < numNodes then
        do { elem \<leftarrow> rd generation (parent2 * numNodes + k);
             if elem \<notin> nodes then
               do { generation' \<leftarrow> wr generation (son + j) elem;
                    remaining_loop generation' nodes parent2 son numNodes (j + 1) (k + 1) }
             else remaining_loop generation nodes parent2 son numNodes j (k + 1) }
      else Some generation)"
  by pat_completeness auto
termination
  by (relation "measure (\<lambda>(generation, nodes, parent2, son, numNodes, j, k). numNodes - k)") auto

declare remaining_loop.simps [simp del]

definition crossover_firstHalf ::
  "int list \<Rightarrow> nat \<Rightarrow> nat \<Rightarrow> nat \<Rightarrow> nat \<Rightarrow> int list option" where
  "crossover_firstHalf generation parent1 parent2 son numNodes =
     (let half = numNodes div 2 in
      do { (generation1, nodes) \<leftarrow> first_half_loop generation {} parent1 son numNodes half 0;
           remaining_loop generation1 nodes parent2 son numNodes half 0 })"

text \<open>The test of line 158, on the value \<open>r\<close> that \<^verbatim>\<open>rand()\<close> returned.\<close>

definition mutation_test :: "nat \<Rightarrow> real \<Rightarrow> bool" where
  "mutation_test r mutatProb \<longleftrightarrow> real (r mod 100 + 1) \<le> mutatProb * 100"

text \<open>The \<^verbatim>\<open>do while\<close> of lines 160 to 162.\<close>

fun swap2_loop :: "nat \<Rightarrow> nat \<Rightarrow> nat list \<Rightarrow> (nat \<times> nat list) option" where
  "swap2_loop numNodes swap1 [] = None"
| "swap2_loop numNodes swap1 (r # rs) =
     (if numNodes = 0 then None
      else if r mod numNodes = swap1 then swap2_loop numNodes swap1 rs
      else Some (r mod numNodes, rs))"

definition mutation ::
  "int list \<Rightarrow> nat \<Rightarrow> nat \<Rightarrow> real \<Rightarrow> nat list \<Rightarrow> (int list \<times> nat list) option" where
  "mutation generation son numNodes mutatProb rs =
     (case rs of
        [] \<Rightarrow> None
      | r # rs1 \<Rightarrow>
          if mutation_test r mutatProb then
            do { (swap1, rs2) \<leftarrow> rand_mod numNodes rs1;
                 (swap2, rs3) \<leftarrow> swap2_loop numNodes swap1 rs2;
                 elem \<leftarrow> rd generation (son + swap1);
                 x \<leftarrow> rd generation (son + swap2);
                 generation1 \<leftarrow> wr generation (son + swap1) x;
                 generation2 \<leftarrow> wr generation1 (son + swap2) elem;
                 Some (generation2, rs3) }
          else Some (generation, rs1))"

definition crossover_firstHalf_withMutation ::
  "int list \<Rightarrow> nat \<Rightarrow> nat \<Rightarrow> nat \<Rightarrow> nat \<Rightarrow> real \<Rightarrow> nat list \<Rightarrow> (int list \<times> nat list) option" where
  "crossover_firstHalf_withMutation generation parent1 parent2 son numNodes mutatProb rs =
     do { generation' \<leftarrow> crossover_firstHalf generation parent1 parent2 son numNodes;
          mutation generation' son numNodes mutatProb rs }"

subsection \<open>\<^verbatim>\<open>generate\<close> (genetic\_utils.h, lines 180 to 201)\<close>

text \<open>The \<^verbatim>\<open>do while\<close> of lines 193 to 195.\<close>

fun parent2_loop :: "nat \<Rightarrow> nat \<Rightarrow> nat list \<Rightarrow> (nat \<times> nat list) option" where
  "parent2_loop best_num i [] = None"
| "parent2_loop best_num i (r # rs) =
     (if best_num = 0 then None
      else if r mod best_num = i then parent2_loop best_num i rs
      else Some (r mod best_num, rs))"

text \<open>Lines 186 to 195: the two parents of slot \<open>i\<close>.\<close>

definition select_parents :: "nat \<Rightarrow> nat \<Rightarrow> nat list \<Rightarrow> (nat \<times> nat \<times> nat list) option" where
  "select_parents best_num i rs =
     do { (parent1, rs1) \<leftarrow> (if i < best_num then Some (i, rs) else rand_mod best_num rs);
          (parent2, rs2) \<leftarrow> parent2_loop best_num i rs1;
          Some (parent1, parent2, rs2) }"

function generate_loop ::
  "int list \<Rightarrow> nat \<Rightarrow> nat \<Rightarrow> nat \<Rightarrow> real \<Rightarrow> nat list \<Rightarrow> nat \<Rightarrow> (int list \<times> nat list) option" where
  "generate_loop generation population best_num numNodes mutatProb rs i =
     (if i < population - best_num then
        do { (parent1, parent2, rs1) \<leftarrow> select_parents best_num i rs;
             let son = (best_num + i) * numNodes;
             (generation', rs2) \<leftarrow>
               crossover_firstHalf_withMutation generation parent1 parent2 son numNodes mutatProb rs1;
             generate_loop generation' population best_num numNodes mutatProb rs2 (i + 1) }
      else Some (generation, rs))"
  by pat_completeness auto
termination
  by (relation "measure (\<lambda>(generation, population, best_num, numNodes, mutatProb, rs, i). population - best_num - i)") auto

declare generate_loop.simps [simp del]

definition generate ::
  "int list \<Rightarrow> nat \<Rightarrow> nat \<Rightarrow> nat \<Rightarrow> real \<Rightarrow> nat list \<Rightarrow> (int list \<times> nat list) option" where
  "generate generation population best_num numNodes mutatProb rs =
     generate_loop generation population best_num numNodes mutatProb rs 0"

subsection \<open>\<^verbatim>\<open>genetic_tsp\<close> (gen\_tsp\_detailed.cpp, lines 38 to 112)\<close>

text \<open>
  The arrays and the generator that \<^verbatim>\<open>genetic_tsp\<close> hands to its helpers. The two
  helpers it calls, \<^verbatim>\<open>rank_generation\<close> with eight arguments and \<^verbatim>\<open>generate\<close> with
  six, are those of \<^verbatim>\<open>genetic_utils_detailed.h\<close>, a file that is not among the sources:
  they are parameters \<open>rank_d\<close> and \<open>generate_d\<close> of the embedding, functions from the
  arrays (and their other arguments) to the arrays after the call, \<open>None\<close> when the
  call fails.
\<close>

record engine =
  gen :: "int list"
  gen_copy :: "int list"
  gen_cost :: "int list"
  rng :: "nat list"

type_synonym rank_fn = "engine \<Rightarrow> int list \<Rightarrow> nat \<Rightarrow> nat \<Rightarrow> nat \<Rightarrow> nat \<Rightarrow> engine option"
type_synonym generate_fn = "engine \<Rightarrow> nat \<Rightarrow> nat \<Rightarrow> nat \<Rightarrow> int \<Rightarrow> nat \<Rightarrow> engine option"

definition AVGELEMS :: nat where
  "AVGELEMS = 5"

text \<open>The conversion of a \<^verbatim>\<open>double\<close> to an \<^verbatim>\<open>int\<close> drops the fraction (towards zero).\<close>

definition double_to_int :: "real \<Rightarrow> int" where
  "double_to_int x = (if 0 \<le> x then \<lfloor>x\<rfloor> else - \<lfloor>- x\<rfloor>)"

text \<open>Lines 90 to 93: the sum of the best \<^verbatim>\<open>AVGELEMS\<close> costs.\<close>

function avg_loop :: "int list \<Rightarrow> nat \<Rightarrow> real \<Rightarrow> real option" where
  "avg_loop generation_cost j avg =
     (if j < AVGELEMS then
        do { c \<leftarrow> rd generation_cost j;
             avg_loop generation_cost (j + 1) (avg + real_of_int c) }
      else Some avg)"
  by pat_completeness auto
termination
  by (relation "measure (\<lambda>(generation_cost, j, avg). AVGELEMS - j)") auto

declare avg_loop.simps [simp del]

text \<open>
  Lines 89 to 100, the early stop of generation \<open>i\<close>: the new window, and whether the
  loop is left as converged. \<^verbatim>\<open>&&\<close> evaluates its right operand, the call of
  \<^verbatim>\<open>stdDev\<close>, only when the left one holds.
\<close>

definition early_stop ::
  "int list \<Rightarrow> real option list \<Rightarrow> nat \<Rightarrow> nat \<Rightarrow> real \<Rightarrow> (real option list \<times> bool) option" where
  "early_stop generation_cost lastRounds i earlyStopRounds earlyStopParam =
     do { avg \<leftarrow> avg_loop generation_cost 0 0;
          slot \<leftarrow> (if earlyStopRounds = 0 then None else Some ((i - 1) mod earlyStopRounds));
          lastRounds' \<leftarrow> wr lastRounds slot (Some (avg / real AVGELEMS));
          if i \<ge> earlyStopRounds then
            do { sd \<leftarrow> stdDev lastRounds' earlyStopRounds;
                 Some (lastRounds', sd \<le> earlyStopParam) }
          else Some (lastRounds', False) }"

text \<open>The loop of lines 72 to 101, from generation \<open>i\<close> on: the arrays when it is left, and
  whether it was left by the \<^verbatim>\<open>break\<close>.\<close>

function generation_loop ::
  "rank_fn \<Rightarrow> generate_fn \<Rightarrow> int list \<Rightarrow> nat \<Rightarrow> nat \<Rightarrow> nat \<Rightarrow> int \<Rightarrow> nat \<Rightarrow> nat \<Rightarrow> nat \<Rightarrow> real
     \<Rightarrow> engine \<Rightarrow> real option list \<Rightarrow> nat \<Rightarrow> (engine \<times> bool) option" where
  "generation_loop rank_d generate_d cost_matrix numNodes population best_num probCentile numThreads
       maxIt earlyStopRounds earlyStopParam e lastRounds i =
     (if i \<le> maxIt then
        do { e1 \<leftarrow> generate_d e population best_num numNodes probCentile numThreads;
             e2 \<leftarrow> rank_d e1 cost_matrix numNodes population best_num numThreads;
             (lastRounds', converged) \<leftarrow>
                early_stop (gen_cost e2) lastRounds i earlyStopRounds earlyStopParam;
             if converged then Some (e2, True)
             else generation_loop rank_d generate_d cost_matrix numNodes population best_num
                    probCentile numThreads maxIt earlyStopRounds earlyStopParam e2 lastRounds' (i + 1) }
      else Some (e, False))"
  by pat_completeness auto
termination
  by (relation "measure (\<lambda>(rank_d, generate_d, cost_matrix, numNodes, population, best_num,
        probCentile, numThreads, maxIt, earlyStopRounds, earlyStopParam, e, lastRounds, i). maxIt + 1 - i)") auto

declare generation_loop.simps [simp del]

text \<open>The array \<^verbatim>\<open>solution\<close> of \<open>numNodes + 2\<close> cells: the first row of \<^verbatim>\<open>generation\<close>,
  then \<^verbatim>\<open>generation_cost[0]\<close>, then the flag (1 for converged).\<close>

definition solution :: "engine \<Rightarrow> nat \<Rightarrow> int \<Rightarrow> int list option" where
  "solution e numNodes flag =
     do { tour \<leftarrow> copy_range (gen e) 0 numNodes (replicate numNodes 0) 0;
          c \<leftarrow> rd (gen_cost e) 0;
          Some (tour @ [c, flag]) }"

text \<open>
  \<open>e\<close> holds the arrays after the initialisation of lines 53 to 58 (each row of
  \<^verbatim>\<open>generation\<close> shuffled by the standard library) and the generator after it.
\<close>

definition genetic_tsp ::
  "rank_fn \<Rightarrow> generate_fn \<Rightarrow> engine \<Rightarrow> nat \<Rightarrow> int list \<Rightarrow> nat \<Rightarrow> nat \<Rightarrow> real \<Rightarrow> nat \<Rightarrow> real \<Rightarrow> nat \<Rightarrow> real
     \<Rightarrow> int list option" where
  "genetic_tsp rank_d generate_d e numThreads cost_matrix numNodes population top' maxIt mutatProb
       earlyStopRounds earlyStopParam =
     (let best_num = nat (double_to_int (real population * top'));
          probCentile = double_to_int (mutatProb * 100)
      in do { e1 \<leftarrow> rank_d e cost_matrix numNodes population best_num numThreads;
              if population = best_num then solution e1 numNodes 0
              else
                do { (e2, converged) \<leftarrow>
                       generation_loop rank_d generate_d cost_matrix numNodes population best_num
                         probCentile numThreads maxIt earlyStopRounds earlyStopParam e1
                         (replicate earlyStopRounds None) 1;
                     solution e2 numNodes (if converged then 1 else 0) } })"

text \<open>
  Modelled from the spec: the \<^verbatim>\<open>rank_generation\<close> with eight arguments that
  \<^verbatim>\<open>genetic_tsp\<close> calls is in \<^verbatim>\<open>genetic_utils_detailed.h\<close>, which is not among the
  sources. The specification describes the ranking as the cost of every tour computed
  afresh, a stable ascending sort, and the promotion of the best \<open>bestNum\<close> tours through
  the scratch buffer with an exchange of the two buffers. It is put together here from
  the functions of \<^verbatim>\<open>genetic_utils.h\<close>, and serves as an instance of the first
  parameter.
\<close>

definition spec_rank_generation :: rank_fn where
  "spec_rank_generation e cost_matrix numNodes population best_num numThreads =
     do { (generation_rank, generation_cost) \<leftarrow>
            rank_generation (replicate population 0) (replicate population 0) (gen e)
              cost_matrix numNodes population best_num;
          (generation, generation_copy) \<leftarrow>
            move_top generation_rank (gen e) (gen_copy e) numNodes best_num;
          Some (e\<lparr>gen := generation, gen_copy := generation_copy, gen_cost := generation_cost\<rparr>) }"

subsection \<open>The checks of \<^verbatim>\<open>main\<close> (gen\_tsp\_detailed.cpp, lines 114 to 147)\<close>

text \<open>
  The values \<^verbatim>\<open>atoi\<close> and \<^verbatim>\<open>atof\<close> return for the arguments 1 to 8 of the command line.
  \<^verbatim>\<open>earlyStopParam\<close> is declared among the \<^verbatim>\<open>int\<close> variables of \<^verbatim>\<open>main\<close> and is assigned
  \<^verbatim>\<open>atof(argv[8])\<close>: the store converts the \<^verbatim>\<open>double\<close> to an \<^verbatim>\<open>int\<close>.
\<close>

record arguments =
  arg_numThreads :: int
  arg_numNodes :: int
  arg_population :: int
  arg_top :: real
  arg_maxIt :: int
  arg_mutatProb :: real
  arg_earlyStopRounds :: int
  arg_earlyStopParam :: real

text \<open>What \<^verbatim>\<open>main\<close> does up to the call of the engine: it returns 1, or it calls
  \<^verbatim>\<open>genetic_tsp\<close> with these eight numbers (and the cost matrix it has read).\<close>

datatype main_result =
    Return int
  | Calls_genetic_tsp int int int real int real int real

definition main_checks :: "nat \<Rightarrow> arguments \<Rightarrow> main_result" where
  "main_checks argc a =
     (if argc < 10 then Return 1
      else
        (let numThreads = arg_numThreads a;
             numNodes = arg_numNodes a;
             population = arg_population a;
             top' = arg_top a;
             maxIt = arg_maxIt a;
             mutatProb = arg_mutatProb a;
             earlyStopRounds = arg_earlyStopRounds a;
             earlyStopParam = double_to_int (arg_earlyStopParam a)
         in if numThreads < 1 \<or>
               top' < 0 \<or> top' > 1 \<or>
               population < int AVGELEMS \<or>
               numNodes \<le> 1 \<or>
               maxIt < 0 \<or>
               mutatProb < 0 \<or> mutatProb > 1 \<or>
               earlyStopRounds > maxIt \<or> earlyStopRounds \<le> 0 \<or>
               earlyStopParam < 0
            then Return 1
            else Calls_genetic_tsp numThreads numNodes population top' maxIt mutatProb
                   earlyStopRounds (real_of_int earlyStopParam)))"

subsection \<open>The notions of the specification\<close>

text \<open>A tour: a permutation of the nodes \<open>0\<close> to \<open>numNodes - 1\<close>.\<close>

definition is_tour :: "nat \<Rightarrow> int list \<Rightarrow> bool" where
  "is_tour numNodes t \<longleftrightarrow>
     length t = numNodes \<and> distinct t \<and> list_all (\<lambda>x. 0 \<le> x \<and> x < int numNodes) t"

text \<open>The entry \<open>cost(a, b)\<close> of the cost matrix, and the cost of the closed tour \<open>t\<close> as
  the specification writes it: the sum of \<open>cost(t[k], t[k+1])\<close> for \<open>k\<close> from \<open>0\<close> to
  \<open>numNodes - 2\<close>, plus \<open>cost(t[numNodes-1], t[0])\<close>.\<close>

definition cost :: "int list \<Rightarrow> nat \<Rightarrow> int \<Rightarrow> int \<Rightarrow> int" where
  "cost cost_matrix numNodes a b = cost_matrix ! nat (a * int numNodes + b)"

definition tour_cost :: "int list \<Rightarrow> nat \<Rightarrow> int list \<Rightarrow> int" where
  "tour_cost cost_matrix numNodes t =
     (\<Sum>k\<leftarrow>[0..<numNodes - 1]. cost cost_matrix numNodes (t ! k) (t ! (k + 1)))
       + cost cost_matrix numNodes (t ! (numNodes - 1)) (t ! 0)"



text \<open>The order of a stable ascending sort on pairs of a rank and a cost, when the ranks
  number the tours in their original order: by cost, and by rank among equal costs.\<close>

definition by_cost_then_rank :: "int \<times> int \<Rightarrow> int \<times> int \<Rightarrow> bool" where
  "by_cost_then_rank p q \<longleftrightarrow> snd p < snd q \<or> (snd p = snd q \<and> fst p < fst q)"

text \<open>The child of the crossover as the specification describes it: the first half of
  the first parent, then the nodes of the second parent that are not among them.\<close>

definition child :: "nat \<Rightarrow> int list \<Rightarrow> int list \<Rightarrow> int list" where
  "child numNodes p1 p2 =
     take (numNodes div 2) p1 @ filter (\<lambda>x. x \<notin> set (take (numNodes div 2) p1)) p2"

section \<open>Parent selection\<close>

lemma rand_mod_Some: "rand_mod m rs = Some (x, rs') \<Longrightarrow> x < m"
  by (cases rs) (auto split: if_splits)

lemma parent2_loop_dropWhile:
  "0 < best_num \<Longrightarrow> parent2_loop best_num i rs =
     (case dropWhile (\<lambda>r. r mod best_num = i) rs of
        [] \<Rightarrow> None | r # rs' \<Rightarrow> Some (r mod best_num, rs'))"
  by (induction rs) auto

lemma select_parents_elite:
  "i < best_num \<Longrightarrow> select_parents best_num i rs =
     (case dropWhile (\<lambda>r. r mod best_num = i) rs of
        [] \<Rightarrow> None | r # rs' \<Rightarrow> Some (i, r mod best_num, rs'))"
proof -
  assume i: "i < best_num"
  then have pos: "0 < best_num" by simp
  show ?thesis
    unfolding select_parents_def parent2_loop_dropWhile[OF pos] using i
    by (cases "dropWhile (\<lambda>r. r mod best_num = i) rs") (simp_all del: dropWhile_eq_Nil_conv)
qed

lemma select_parents_other:
  "0 < best_num \<Longrightarrow> best_num \<le> i \<Longrightarrow> select_parents best_num i rs =
     (case rs of r1 # r2 # rs' \<Rightarrow> Some (r1 mod best_num, r2 mod best_num, rs') | _ \<Rightarrow> None)"
proof -
  assume b: "0 < best_num" "best_num \<le> i"
  have "r mod best_num \<noteq> i" for r
    using b mod_less_divisor[of best_num r] by linarith
  then show ?thesis using b
    by (auto simp: select_parents_def split: list.splits)
qed

text \<open>With no elite row the first \<^verbatim>\<open>rand() % best_num\<close> divides by zero.\<close>

lemma select_parents_zero: "select_parents 0 i rs = None"
  by (cases rs; cases "tl rs") (auto simp: select_parents_def)

text \<open>With a single elite row, slot 0 redraws for ever: \<^verbatim>\<open>rand() % 1\<close> is always 0.\<close>

lemma select_parents_single_elite: "select_parents (Suc 0) 0 rs = None"
proof -
  have "dropWhile (\<lambda>r. r mod Suc 0 = 0) rs = []" by simp
  then show ?thesis by (simp add: select_parents_elite del: dropWhile_eq_Nil_conv)
qed

lemma select_parents_bounds:
  assumes "select_parents best_num i rs = Some (parent1, parent2, rs')"
  shows "parent1 < best_num \<and> parent2 < best_num \<and> parent2 \<noteq> i"
proof -
  have pos: "0 < best_num" using assms select_parents_zero by (cases best_num) auto
  show ?thesis
  proof (cases "i < best_num")
    case True
    from assms True obtain r where
      dw: "dropWhile (\<lambda>r. r mod best_num = i) rs = r # rs'" and p: "parent1 = i" "parent2 = r mod best_num"
      by (auto simp: select_parents_elite split: list.splits)
    have "r mod best_num \<noteq> i" using dw hd_dropWhile[of "\<lambda>r. r mod best_num = i" rs] by auto
    with True p pos show ?thesis by simp
  next
    case False
    with assms pos show ?thesis
      by (auto simp: select_parents_other split: list.splits)
  qed
qed



section \<open>The mutation test\<close>





lemma swap2_loop_Some:
  "swap2_loop numNodes swap1 rs = Some (swap2, rs') \<Longrightarrow> swap2 < numNodes \<and> swap2 \<noteq> swap1"
  by (induction rs) (auto split: if_splits)


lemma mutation_done:
  assumes "mutation generation son numNodes mutatProb rs = Some (generation', rs')"
  shows "generation' = generation \<or>
         (\<exists>swap1 swap2. swap1 < numNodes \<and> swap2 < numNodes \<and> swap1 \<noteq> swap2 \<and>
           son + swap1 < length generation \<and> son + swap2 < length generation \<and>
           generation' = generation[son + swap1 := generation ! (son + swap2),
                                    son + swap2 := generation ! (son + swap1)])"
proof -
  from assms obtain r rs1 where rs: "rs = r # rs1" by (cases rs) (auto simp: mutation_def)
  show ?thesis
  proof (cases "mutation_test r mutatProb")
    case False
    with assms rs show ?thesis by (simp add: mutation_def)
  next
    case True
    with assms rs obtain swap1 rs2 swap2 where
      a: "rand_mod numNodes rs1 = Some (swap1, rs2)" and
      b: "swap2_loop numNodes swap1 rs2 = Some (swap2, rs')" and
      c: "son + swap1 < length generation" "son + swap2 < length generation" and
      d: "generation' = generation[son + swap1 := generation ! (son + swap2),
                                    son + swap2 := generation ! (son + swap1)]"
      by (auto simp: mutation_def rd_def wr_def split: Option.bind_splits if_splits)
    from rand_mod_Some[OF a] swap2_loop_Some[OF b] c d show ?thesis by blast
  qed
qed




section \<open>The checks of main\<close>

lemma main_checks_iff:
  "main_checks argc a = Return 1 \<longleftrightarrow>
     argc < 10 \<or> arg_numThreads a < 1 \<or> arg_numNodes a < 2 \<or> arg_population a < 5 \<or>
     arg_top a < 0 \<or> arg_top a > 1 \<or> arg_maxIt a < 0 \<or> arg_mutatProb a < 0 \<or> arg_mutatProb a > 1 \<or>
     arg_earlyStopRounds a \<le> 0 \<or> arg_earlyStopRounds a > arg_maxIt a \<or> arg_earlyStopParam a \<le> - 1"
proof -
  have "double_to_int (arg_earlyStopParam a) < 0 \<longleftrightarrow> arg_earlyStopParam a \<le> - 1"
    unfolding double_to_int_def by (auto simp: floor_less_iff le_floor_iff) 
  then show ?thesis
    unfolding main_checks_def Let_def AVGELEMS_def by auto
qed

text \<open>
  C8. The checks of \<^verbatim>\<open>main\<close> reject every constraint of the configuration but one: the
  threshold is compared after its conversion to \<^verbatim>\<open>int\<close>, which maps every value above
  \<open>-1\<close> to a value that is not negative (lemma \<open>main_checks_iff\<close>). With the threshold
  \<open>-0.5\<close> and every other argument valid, \<^verbatim>\<open>main\<close> goes on to call the engine, with
  the threshold \<open>0\<close>.
\<close>

theorem main_accepts_negative_threshold:
  "main_checks 10 \<lparr>arg_numThreads = 1, arg_numNodes = 4, arg_population = 6, arg_top = 1 / 2,
      arg_maxIt = 50, arg_mutatProb = 1 / 4, arg_earlyStopRounds = 5, arg_earlyStopParam = - 1 / 2\<rparr>
     = Calls_genetic_tsp 1 4 6 (1 / 2) 50 (1 / 4) 5 0"
  by (simp add: main_checks_def double_to_int_def AVGELEMS_def)

section \<open>The early stop\<close>












section \<open>The degenerate configuration\<close>

lemma best_num_top_one: "nat (double_to_int (real population * 1)) = population"
  by (simp add: double_to_int_def)

lemma solution_Some:
  assumes "numNodes \<le> length (gen e)" "gen_cost e \<noteq> []"
  shows "solution e numNodes flag = Some (row (gen e) numNodes 0 @ [gen_cost e ! 0, flag])"
  using assms by (simp add: solution_def copy_range_def rd_def row_def)

text \<open>
  C6. When \<open>best_num\<close>, the integer part of \<open>population * top\<close>, equals \<open>population\<close> (as
  with \<open>top = 1\<close>, lemma \<open>best_num_top_one\<close>), \<^verbatim>\<open>genetic_tsp\<close> returns right after the first
  ranking: the solution is row 0 of the ranked population, then entry 0 of the cost
  vector, then the flag 0 (not converged). Neither \<^verbatim>\<open>generate\<close> nor the number of
  iterations has a part in it: the equation holds for every \<open>generate_d\<close>, also one that
  fails at each call, and every \<open>maxIt\<close>. The engine has a result as soon as the ranking
  has one and leaves a row and a cost to read.
\<close>

theorem degenerate_returns_first_ranking:
  assumes "nat (double_to_int (real population * top')) = population"
    and "rank_d e cost_matrix numNodes population population numThreads = Some e1"
    and "numNodes \<le> length (gen e1)" and "gen_cost e1 \<noteq> []"
  shows "genetic_tsp rank_d generate_d e numThreads cost_matrix numNodes population top' maxIt
           mutatProb earlyStopRounds earlyStopParam
         = Some (row (gen e1) numNodes 0 @ [gen_cost e1 ! 0, 0])"
  using assms by (simp add: genetic_tsp_def solution_Some)

theorem degenerate_returns_first_ranking_witness:
  "genetic_tsp spec_rank_generation (\<lambda>e population best_num numNodes probCentile numThreads. None)
      \<lparr>gen = [0, 1, 1, 0, 0, 1, 1, 0, 0, 1], gen_copy = [7, 7, 7, 7, 7, 7, 7, 7, 7, 7],
       gen_cost = [7, 7, 7, 7, 7], rng = []\<rparr>
      1 [0, 3, 3, 0] 2 5 1 50 (1 / 10) 5 0
    = Some [0, 1, 6, 0]"
proof -
  have r: "spec_rank_generation
      \<lparr>gen = [0, 1, 1, 0, 0, 1, 1, 0, 0, 1], gen_copy = [7, 7, 7, 7, 7, 7, 7, 7, 7, 7],
       gen_cost = [7, 7, 7, 7, 7], rng = []\<rparr> [0, 3, 3, 0] 2 5 5 1
    = Some \<lparr>gen = [0, 1, 1, 0, 0, 1, 1, 0, 0, 1], gen_copy = [0, 1, 1, 0, 0, 1, 1, 0, 0, 1],
       gen_cost = [6, 6, 6, 6, 6], rng = []\<rparr>"
    by code_simp
  have b: "nat (double_to_int (real 5 * 1)) = 5" by (simp add: double_to_int_def)
  show ?thesis
    using degenerate_returns_first_ranking[where rank_d = spec_rank_generation and population = 5
        and top' = 1 and cost_matrix = "[0, 3, 3, 0]" and numNodes = 2 and numThreads = 1
        and generate_d = "\<lambda>e population best_num numNodes probCentile numThreads. None"
        and maxIt = 50 and mutatProb = "1 / 10" and earlyStopRounds = 5 and earlyStopParam = 0,
        OF b r]
    by (simp add: row_def)
qed

section \<open>The insertion sort\<close>

lemma shift_loop_app:
  "length RA = length CA \<Longrightarrow>
     \<exists>k\<le>length CA.
       shift_loop (RA @ ry # RB) (CA @ cy # CB) key key_idx (int (length CA) - 1)
         = (take k RA @ key_idx # drop k RA @ RB, take k CA @ key # drop k CA @ CB)
       \<and> (\<forall>c \<in> set (drop k CA). key < c)
       \<and> (0 < k \<longrightarrow> CA ! (k - 1) \<le> key)"
proof (induction CA arbitrary: RA ry RB cy CB rule: rev_induct)
  case Nil
  then have "shift_loop (RA @ ry # RB) ([] @ cy # CB) key key_idx (int (length ([]::int list)) - 1)
      = (key_idx # RB, key # CB)"
    by (subst shift_loop.simps) simp
  with Nil show ?case by simp
next
  case (snoc c CA)
  from snoc.prems obtain r RA' where RA: "RA = RA' @ [r]" and len: "length RA' = length CA"
    by (cases RA rule: rev_cases) auto
  have j: "int (length (CA @ [c])) - 1 = int (length CA)" by simp
  have nthc: "((CA @ [c]) @ cy # CB) ! length CA = c" by (simp add: nth_append)
  have nthr: "((RA' @ [r]) @ ry # RB) ! length CA = r" using len by (simp add: nth_append)
  show ?case
  proof (cases "key < c")
    case False
    have "shift_loop (RA @ ry # RB) ((CA @ [c]) @ cy # CB) key key_idx (int (length (CA @ [c])) - 1)
        = (RA @ key_idx # RB, (CA @ [c]) @ key # CB)"
      unfolding j RA
      apply (subst shift_loop.simps)
      using False nthc len by (simp add: nat_add_distrib list_update_append)
    moreover have "(CA @ [c]) ! (length (CA @ [c]) - 1) \<le> key" using False by simp
    ultimately show ?thesis
      by (intro exI[of _ "length (CA @ [c])"]) (simp add: snoc.prems)
  next
    case True
    have step: "shift_loop (RA @ ry # RB) ((CA @ [c]) @ cy # CB) key key_idx (int (length (CA @ [c])) - 1)
        = shift_loop (RA' @ r # (r # RB)) (CA @ c # (c # CB)) key key_idx (int (length CA) - 1)"
      unfolding j RA
      apply (subst shift_loop.simps)
      using True nthc nthr len by (simp add: nat_add_distrib list_update_append)
    from snoc.IH[OF len, of r "r # RB" c "c # CB"] obtain k where
      k: "k \<le> length CA"
      and eq: "shift_loop (RA' @ r # r # RB) (CA @ c # c # CB) key key_idx (int (length CA) - 1)
         = (take k RA' @ key_idx # drop k RA' @ r # RB, take k CA @ key # drop k CA @ c # CB)"
      and gt: "\<forall>c \<in> set (drop k CA). key < c"
      and le: "0 < k \<longrightarrow> CA ! (k - 1) \<le> key" by blast
    have "shift_loop (RA @ ry # RB) ((CA @ [c]) @ cy # CB) key key_idx (int (length (CA @ [c])) - 1)
        = (take k RA @ key_idx # drop k RA @ RB, take k (CA @ [c]) @ key # drop k (CA @ [c]) @ CB)"
      using step eq k len RA by simp
    moreover have "\<forall>x \<in> set (drop k (CA @ [c])). key < x" using gt True k by simp
    moreover have "0 < k \<longrightarrow> (CA @ [c]) ! (k - 1) \<le> key"
      using le k by (auto simp: nth_append)
    ultimately show ?thesis using k
      by (intro exI[of _ k]) simp
  qed
qed

lemma by_cost_then_rank_insert:
  assumes srt: "sorted_wrt by_cost_then_rank (zip RA CA)" and len: "length RA = length CA"
    and k: "k \<le> length CA" and gt: "\<forall>c \<in> set (drop k CA). key < c"
    and le: "0 < k \<longrightarrow> CA ! (k - 1) \<le> key" and idx: "\<forall>r \<in> set RA. r < key_idx"
  shows "sorted_wrt by_cost_then_rank (zip (take k RA @ key_idx # drop k RA) (take k CA @ key # drop k CA))"
proof -
  let ?Z = "zip RA CA"
  have z: "zip (take k RA @ key_idx # drop k RA) (take k CA @ key # drop k CA)
      = take k ?Z @ (key_idx, key) # drop k ?Z"
    using len k by (simp add: take_zip drop_zip)
  have split: "?Z = take k ?Z @ drop k ?Z" by simp
  have s1: "sorted_wrt by_cost_then_rank (take k ?Z)" using srt by (rule sorted_wrt_take)
  have s2: "sorted_wrt by_cost_then_rank (drop k ?Z)" using srt by (rule sorted_wrt_drop)
  have cross: "\<forall>p \<in> set (take k ?Z). \<forall>q \<in> set (drop k ?Z). by_cost_then_rank p q"
    using srt split sorted_wrt_append[of by_cost_then_rank "take k ?Z" "drop k ?Z"] by simp
  have after: "\<forall>q \<in> set (drop k ?Z). by_cost_then_rank (key_idx, key) q"
  proof
    fix q assume "q \<in> set (drop k ?Z)"
    then have "q \<in> set (zip (drop k RA) (drop k CA))" by (simp add: drop_zip)
    then have "snd q \<in> set (drop k CA)"
      using set_zip_rightD[of "fst q" "snd q" "drop k RA" "drop k CA"] by simp
    with gt show "by_cost_then_rank (key_idx, key) q" by (simp add: by_cost_then_rank_def)
  qed
  have before: "\<forall>p \<in> set (take k ?Z). by_cost_then_rank p (key_idx, key)"
  proof
    fix p assume p: "p \<in> set (take k ?Z)"
    then obtain a where a: "a < k" "a < length ?Z" and pa: "p = ?Z ! a"
      by (auto simp: in_set_conv_nth)
    have kpos: "0 < k" using a by simp
    have "snd (?Z ! a) \<le> snd (?Z ! (k - 1))"
    proof (cases "a = k - 1")
      case True then show ?thesis by simp
    next
      case False
      with a have "a < k - 1" by simp
      moreover have "k - 1 < length ?Z" using k len kpos by simp
      ultimately have "by_cost_then_rank (?Z ! a) (?Z ! (k - 1))"
        using sorted_wrt_nth_less[OF srt] by blast
      then show ?thesis by (auto simp: by_cost_then_rank_def)
    qed
    moreover have "snd (?Z ! (k - 1)) = CA ! (k - 1)" using k len kpos by simp
    ultimately have c: "snd p \<le> key" using le kpos pa by simp
    have "fst p \<in> set RA" using p pa a len by (simp add: nth_mem)
    with idx have "fst p < key_idx" by simp
    with c show "by_cost_then_rank p (key_idx, key)" by (auto simp: by_cost_then_rank_def)
  qed
  show ?thesis
    unfolding z using s1 s2 cross after before by (simp add: sorted_wrt_append)
qed

lemma sort_loop_app:
  "length RA = length CA \<Longrightarrow> length RM = length CM \<Longrightarrow>
   RM = map int [length CA..<length CA + length CM] \<Longrightarrow>
   sorted_wrt by_cost_then_rank (zip RA CA) \<Longrightarrow> \<forall>r \<in> set RA. r < int (length CA) \<Longrightarrow>
   \<exists>RS CS. sort_loop (RA @ RM @ RT) (CA @ CM @ CT) (length CA + length CM) (length CA) = (RS @ RT, CS @ CT)
     \<and> length RS = length CA + length CM \<and> length CS = length RS
     \<and> sorted_wrt by_cost_then_rank (zip RS CS)
     \<and> mset (zip RS CS) = mset (zip (RA @ RM) (CA @ CM))"
proof (induction CM arbitrary: RA CA RM)
  case Nil
  then have "sort_loop (RA @ RM @ RT) (CA @ [] @ CT) (length CA + length ([]::int list)) (length CA)
      = (RA @ RT, CA @ CT)"
    by (subst sort_loop.simps) simp
  with Nil show ?case by auto
next
  case (Cons c CM)
  let ?i = "length CA"
  from Cons.prems(2,3) obtain RM' where RM: "RM = int ?i # RM'"
    and RM': "RM' = map int [?i + 1..<?i + 1 + length CM]" and lRM': "length RM' = length CM"
    by (cases RM) (auto simp: upt_rec)
  from shift_loop_app[OF Cons.prems(1), of "int ?i" "RM' @ RT" c "CM @ CT" c "int ?i"]
  obtain k where k: "k \<le> ?i"
    and sh: "shift_loop (RA @ int ?i # RM' @ RT) (CA @ c # CM @ CT) c (int ?i) (int ?i - 1)
       = (take k RA @ int ?i # drop k RA @ RM' @ RT, take k CA @ c # drop k CA @ CM @ CT)"
    and gt: "\<forall>x \<in> set (drop k CA). c < x" and le: "0 < k \<longrightarrow> CA ! (k - 1) \<le> c" by blast
  let ?RA1 = "take k RA @ int ?i # drop k RA" and ?CA1 = "take k CA @ c # drop k CA"
  have l1: "length ?RA1 = length ?CA1" using Cons.prems(1) by simp
  have lc: "length ?CA1 = ?i + 1" using k by simp
  have step: "sort_loop (RA @ RM @ RT) (CA @ (c # CM) @ CT) (?i + length (c # CM)) ?i
      = sort_loop (?RA1 @ RM' @ RT) (?CA1 @ CM @ CT) (length ?CA1 + length CM) (length ?CA1)"
    apply (subst sort_loop.simps)
    using sh Cons.prems(1) k by (simp add: RM nth_append)
  have srt1: "sorted_wrt by_cost_then_rank (zip ?RA1 ?CA1)"
    using by_cost_then_rank_insert[OF Cons.prems(4) Cons.prems(1) k gt le Cons.prems(5)] .
  have rk1: "\<forall>r \<in> set ?RA1. r < int (length ?CA1)"
  proof
    fix r assume "r \<in> set ?RA1"
    then have "r = int ?i \<or> r \<in> set (take k RA) \<or> r \<in> set (drop k RA)" by auto
    then have "r = int ?i \<or> r \<in> set RA" by (auto dest: in_set_takeD in_set_dropD)
    with Cons.prems(5) lc show "r < int (length ?CA1)" by auto
  qed
  have RM1: "RM' = map int [length ?CA1..<length ?CA1 + length CM]" using RM' lc by simp
  from Cons.IH[OF l1 lRM' RM1 srt1 rk1] obtain RS CS where
    eq: "sort_loop (?RA1 @ RM' @ RT) (?CA1 @ CM @ CT) (length ?CA1 + length CM) (length ?CA1) = (RS @ RT, CS @ CT)"
    and ls: "length RS = length ?CA1 + length CM" "length CS = length RS"
    and srt: "sorted_wrt by_cost_then_rank (zip RS CS)"
    and ms: "mset (zip RS CS) = mset (zip (?RA1 @ RM') (?CA1 @ CM))" by blast
  have z1: "zip ?RA1 ?CA1 = take k (zip RA CA) @ (int ?i, c) # drop k (zip RA CA)"
    using Cons.prems(1) k by (simp add: take_zip drop_zip)
  have "mset (take k (zip RA CA)) + mset (drop k (zip RA CA)) = mset (zip RA CA)"
    by (metis append_take_drop_id mset_append)
  then have m1: "mset (zip ?RA1 ?CA1) = mset (zip RA CA) + {#(int ?i, c)#}"
    unfolding z1 by simp
  have "mset (zip (?RA1 @ RM') (?CA1 @ CM)) = mset (zip ?RA1 ?CA1) + mset (zip RM' CM)"
    using l1 by (simp add: zip_append del: append.simps)
  also have "\<dots> = mset (zip RA CA) + {#(int ?i, c)#} + mset (zip RM' CM)" using m1 by simp
  also have "\<dots> = mset (zip (RA @ RM) (CA @ c # CM))"
    using Cons.prems(1) by (simp add: RM)
  finally have ms': "mset (zip RS CS) = mset (zip (RA @ RM) (CA @ c # CM))" using ms by simp
  show ?case using step eq ls srt ms' lc by auto
qed

section \<open>The cost of the tours\<close>

lemma adjacent_loop_Some:
  "adjacent_loop generation_cost generation cost_matrix numNodes i j destination = Some generation_cost' \<Longrightarrow>
   destination = generation ! (i * numNodes + j) \<Longrightarrow>
     generation_cost' = generation_cost[i := generation_cost ! i +
        (\<Sum>k\<leftarrow>[j..<numNodes - 1]. cost cost_matrix numNodes (generation ! (i * numNodes + k))
                                     (generation ! (i * numNodes + (k + 1))))]"
proof (induction generation_cost generation cost_matrix numNodes i j destination
    rule: adjacent_loop.induct)
  case (1 generation_cost generation cost_matrix numNodes i j destination)
  show ?case
  proof (cases "int j < int numNodes - 1")
    case False
    then have "numNodes - 1 \<le> j" by linarith
    then have e: "[j..<numNodes - 1] = []" by simp
    from False "1.prems"(1) have "generation_cost' = generation_cost"
      by (subst (asm) adjacent_loop.simps) simp
    then show ?thesis unfolding e by simp
  next
    case True
    let ?d = "generation ! (i * numNodes + j + 1)"
    let ?w = "cost cost_matrix numNodes destination ?d"
    from True "1.prems"(1) have
      r1: "rd generation (i * numNodes + j + 1) = Some ?d"
      and r2: "rdi cost_matrix (destination * int numNodes + ?d) = Some ?w"
      and r3: "rd generation_cost i = Some (generation_cost ! i)"
      and r4: "wr generation_cost i (generation_cost ! i + ?w)
                 = Some (generation_cost[i := generation_cost ! i + ?w])"
      and rec: "adjacent_loop (generation_cost[i := generation_cost ! i + ?w]) generation cost_matrix
                  numNodes i (j + 1) ?d = Some generation_cost'"
      by (subst (asm) adjacent_loop.simps;
          auto simp: bind_eq_Some_conv rd_def rdi_def wr_def cost_def split: if_splits)+
    have il: "i < length generation_cost" using r3 by (simp add: rd_def split: if_splits)
    have "?d = generation ! (i * numNodes + (j + 1))" by (simp add: add.assoc)
    from "1.IH"[OF True refl r1 r2 r3 r4 rec this]
    have "generation_cost' = (generation_cost[i := generation_cost ! i + ?w])
        [i := (generation_cost[i := generation_cost ! i + ?w]) ! i +
        (\<Sum>k\<leftarrow>[j + 1..<numNodes - 1]. cost cost_matrix numNodes (generation ! (i * numNodes + k))
                                     (generation ! (i * numNodes + (k + 1))))]" .
    moreover have "[j..<numNodes - 1] = j # [j + 1..<numNodes - 1]"
      using True by (simp add: upt_rec)
    ultimately show ?thesis using il "1.prems"(2) by (simp add: add.assoc)
  qed
qed

lemma row_nth: "(r + 1) * numNodes \<le> length g \<Longrightarrow> k < numNodes \<Longrightarrow> row g numNodes r ! k = g ! (r * numNodes + k)"
  by (simp add: row_def)

lemma tour_cost_row:
  assumes "(i + 1) * numNodes \<le> length generation" "0 < numNodes"
  shows "tour_cost cost_matrix numNodes (row generation numNodes i) =
     (\<Sum>k\<leftarrow>[0..<numNodes - 1]. cost cost_matrix numNodes (generation ! (i * numNodes + k))
                                     (generation ! (i * numNodes + (k + 1))))
       + cost cost_matrix numNodes (generation ! (i * numNodes + (numNodes - 1))) (generation ! (i * numNodes))"
proof -
  have "map (\<lambda>k. cost cost_matrix numNodes (row generation numNodes i ! k) (row generation numNodes i ! (k + 1)))
          [0..<numNodes - 1]
      = map (\<lambda>k. cost cost_matrix numNodes (generation ! (i * numNodes + k))
                                     (generation ! (i * numNodes + (k + 1)))) [0..<numNodes - 1]"
    using assms by (intro map_cong refl) (simp add: row_nth)
  then have e1: "(\<Sum>k\<leftarrow>[0..<numNodes - 1]. cost cost_matrix numNodes (row generation numNodes i ! k)
                                     (row generation numNodes i ! (k + 1)))
      = (\<Sum>k\<leftarrow>[0..<numNodes - 1]. cost cost_matrix numNodes (generation ! (i * numNodes + k))
                                     (generation ! (i * numNodes + (k + 1))))"
    by (rule arg_cong)
  have e2: "row generation numNodes i ! (numNodes - 1) = generation ! (i * numNodes + (numNodes - 1))"
    using assms by (simp add: row_nth)
  have e3: "row generation numNodes i ! 0 = generation ! (i * numNodes)"
    using assms row_nth[of i numNodes generation 0] by simp
  show ?thesis unfolding tour_cost_def e1 e2 e3 ..
qed

lemma cost_loop_Some:
  "cost_loop generation_rank generation_cost generation cost_matrix numNodes population i
      = Some (generation_rank', generation_cost') \<Longrightarrow>
   length generation_rank' = length generation_rank \<and> length generation_cost' = length generation_cost \<and>
   (\<forall>a. i \<le> a \<and> a < population \<longrightarrow>
        a < length generation_rank \<and> a < length generation_cost \<and>
        (a + 1) * numNodes \<le> length generation \<and> 0 < numNodes \<and>
        generation_rank' ! a = int a \<and>
        generation_cost' ! a = generation_cost ! a + tour_cost cost_matrix numNodes (row generation numNodes a)) \<and>
   (\<forall>a. a < i \<or> population \<le> a \<longrightarrow>
        generation_rank' ! a = generation_rank ! a \<and> generation_cost' ! a = generation_cost ! a)"
proof (induction generation_rank generation_cost generation cost_matrix numNodes population i
    rule: cost_loop.induct)
  case (1 generation_rank generation_cost generation cost_matrix numNodes population i)
  show ?case
  proof (cases "i < population")
    case False
    with "1.prems" have "generation_rank' = generation_rank" "generation_cost' = generation_cost"
      by (subst (asm) cost_loop.simps; simp)+
    with False show ?thesis by simp
  next
    case True
    let ?s = "generation ! nat (int (i * numNodes) + int numNodes - 1)"
    let ?d = "generation ! (i * numNodes)"
    let ?w = "cost cost_matrix numNodes ?s ?d"
    let ?C1 = "generation_cost[i := generation_cost ! i + ?w]"
    from True "1.prems" obtain C2 where
      r1: "rdi generation (int (i * numNodes) + int numNodes - 1) = Some ?s"
      and r2: "rd generation (i * numNodes) = Some ?d"
      and r3: "rdi cost_matrix (?s * int numNodes + ?d) = Some ?w"
      and r4: "rd generation_cost i = Some (generation_cost ! i)"
      and r5: "wr generation_cost i (generation_cost ! i + ?w) = Some ?C1"
      and r6: "adjacent_loop ?C1 generation cost_matrix numNodes i 0 ?d = Some C2"
      and r7: "wr generation_rank i (int i) = Some (generation_rank[i := int i])"
      and rec: "cost_loop (generation_rank[i := int i]) C2 generation cost_matrix numNodes population (i + 1)
                  = Some (generation_rank', generation_cost')"
      by (subst (asm) cost_loop.simps)
         (auto simp: bind_eq_Some_conv rd_def rdi_def wr_def cost_def split: if_splits)
    have il: "i < length generation_cost" using r4 by (simp add: rd_def split: if_splits)
    have ir: "i < length generation_rank" using r7 by (simp add: wr_def split: if_splits)
    have b: "0 \<le> int (i * numNodes) + int numNodes - 1"
       "int (i * numNodes) + int numNodes - 1 < int (length generation)"
      using r1 by (simp_all add: rdi_def split: if_splits)
    have n: "0 < numNodes"
    proof (rule ccontr)
      assume "\<not> 0 < numNodes"
      then have "numNodes = 0" by simp
      with b(1) show False by simp
    qed
    have "int (i * numNodes) + int numNodes = int ((i + 1) * numNodes)" by (simp add: algebra_simps)
    with b(2) have "int ((i + 1) * numNodes) < int (length generation) + 1" by (simp only:)
    then have lg: "(i + 1) * numNodes \<le> length generation" by (simp only: flip: of_nat_Suc)
    have s: "?s = generation ! (i * numNodes + (numNodes - 1))"
    proof -
      have "int (i * numNodes + (numNodes - 1)) = int (i * numNodes) + int numNodes - 1"
        using n by (simp add: of_nat_diff)
      then have "nat (int (i * numNodes) + int numNodes - 1) = i * numNodes + (numNodes - 1)"
        by (metis nat_int)
      then show ?thesis by simp
    qed
    have C2: "C2 = generation_cost[i := generation_cost ! i + ?w +
        (\<Sum>k\<leftarrow>[0..<numNodes - 1]. cost cost_matrix numNodes (generation ! (i * numNodes + k))
                                     (generation ! (i * numNodes + (k + 1))))]"
      using adjacent_loop_Some[OF r6] il by simp
    have tc: "C2 ! i = generation_cost ! i + tour_cost cost_matrix numNodes (row generation numNodes i)"
      using C2 il tour_cost_row[OF lg n, of cost_matrix] s by simp
    note IH = "1.IH"[OF True r1 r2 r3 r4 r5 r6 r7 rec]
    have len: "length generation_rank' = length generation_rank \<and> length generation_cost' = length generation_cost"
      using IH C2 by simp
    have at_i: "generation_rank' ! i = int i \<and> generation_cost' ! i = C2 ! i"
      using IH ir by simp
    have upper: "\<forall>a. i \<le> a \<and> a < population \<longrightarrow>
        a < length generation_rank \<and> a < length generation_cost \<and>
        (a + 1) * numNodes \<le> length generation \<and> 0 < numNodes \<and>
        generation_rank' ! a = int a \<and>
        generation_cost' ! a = generation_cost ! a + tour_cost cost_matrix numNodes (row generation numNodes a)"
    proof (intro allI impI)
      fix a assume a: "i \<le> a \<and> a < population"
      show "a < length generation_rank \<and> a < length generation_cost \<and>
        (a + 1) * numNodes \<le> length generation \<and> 0 < numNodes \<and>
        generation_rank' ! a = int a \<and>
        generation_cost' ! a = generation_cost ! a + tour_cost cost_matrix numNodes (row generation numNodes a)"
      proof (cases "a = i")
        case True
        with il ir lg n at_i tc show ?thesis by simp
      next
        case False
        with a have "i + 1 \<le> a \<and> a < population" by simp
        with IH have "a < length (generation_rank[i := int i]) \<and> a < length C2 \<and>
          (a + 1) * numNodes \<le> length generation \<and> 0 < numNodes \<and>
          generation_rank' ! a = int a \<and>
          generation_cost' ! a = C2 ! a + tour_cost cost_matrix numNodes (row generation numNodes a)"
          by blast
        with False C2 show ?thesis by simp
      qed
    qed
    have lower: "\<forall>a. a < i \<or> population \<le> a \<longrightarrow>
        generation_rank' ! a = generation_rank ! a \<and> generation_cost' ! a = generation_cost ! a"
    proof (intro allI impI)
      fix a assume a: "a < i \<or> population \<le> a"
      with True have ne: "a \<noteq> i" by auto
      from a have "a < i + 1 \<or> population \<le> a" by auto
      with IH have "generation_rank' ! a = (generation_rank[i := int i]) ! a \<and> generation_cost' ! a = C2 ! a"
        by blast
      with ne C2 show "generation_rank' ! a = generation_rank ! a \<and> generation_cost' ! a = generation_cost ! a"
        by simp
    qed
    from len upper lower show ?thesis by blast
  qed
qed

lemma sort_vector_spec:
  assumes n: "population \<le> length R" "population \<le> length C"
    and id: "take population R = map int [0..<population]"
  shows "\<exists>R' C'. sort_vector R C population = (R', C')
     \<and> length R' = length R \<and> length C' = length C
     \<and> drop population R' = drop population R \<and> drop population C' = drop population C
     \<and> sorted_wrt by_cost_then_rank (zip (take population R') (take population C'))
     \<and> mset (zip (take population R') (take population C'))
         = mset (zip (take population R) (take population C))"
proof (cases "population = 0")
  case True
  then have "sort_vector R C population = (R, C)"
    unfolding sort_vector_def by (subst sort_loop.simps) simp
  with True show ?thesis by simp
next
  case False
  define RA where "RA = take 1 R"
  define CA where "CA = take 1 C"
  define RM where "RM = drop 1 (take population R)"
  define CM where "CM = drop 1 (take population C)"
  define RT where "RT = drop population R"
  define CT where "CT = drop population C"
  have pos: "0 < population" using False by simp
  have lA: "length RA = 1" "length CA = 1" using n pos by (simp_all add: RA_def CA_def)
  have lM: "length RM = population - 1" "length CM = population - 1"
    using n by (simp_all add: RM_def CM_def)
  have tR: "take population R = RA @ RM"
  proof -
    have "take 1 (take population R) = take 1 R" using pos by (simp add: min_def)
    then show ?thesis unfolding RA_def RM_def by (metis append_take_drop_id)
  qed
  have tC: "take population C = CA @ CM"
  proof -
    have "take 1 (take population C) = take 1 C" using pos by (simp add: min_def)
    then show ?thesis unfolding CA_def CM_def by (metis append_take_drop_id)
  qed
  have R: "R = RA @ RM @ RT" using tR unfolding RT_def by (metis append_assoc append_take_drop_id)
  have C: "C = CA @ CM @ CT" using tC unfolding CT_def by (metis append_assoc append_take_drop_id)
  have RM: "RM = map int [length CA..<length CA + length CM]"
    using lA lM pos unfolding RM_def id by (simp add: drop_map)
  have RA0: "RA = [0]"
  proof -
    have "RA = take 1 (take population R)" using pos by (simp add: RA_def min_def)
    also have "\<dots> = take 1 (map int [0..<population])" by (simp only: id)
    also have "\<dots> = [0]" using pos by (simp add: take_map upt_rec)
    finally show ?thesis .
  qed
  obtain c where CA1: "CA = [c]" using lA by (cases CA) auto
  have srt: "sorted_wrt by_cost_then_rank (zip RA CA)" by (simp add: RA0 CA1)
  have rk: "\<forall>r \<in> set RA. r < int (length CA)" by (simp add: RA0 CA1)
  from sort_loop_app[OF _ _ RM srt rk, of RT CT] lA lM obtain RS CS where
    eq: "sort_loop (RA @ RM @ RT) (CA @ CM @ CT) (length CA + length CM) (length CA) = (RS @ RT, CS @ CT)"
    and ls: "length RS = length CA + length CM" "length CS = length RS"
    and s: "sorted_wrt by_cost_then_rank (zip RS CS)"
    and m: "mset (zip RS CS) = mset (zip (RA @ RM) (CA @ CM))" by auto
  have pl: "length CA + length CM = population" using lA lM pos by simp
  have pl': "Suc (length CM) = population" using lM pos by simp
  have "sort_vector R C population = (RS @ RT, CS @ CT)"
    using eq unfolding sort_vector_def R[symmetric] C[symmetric] by (simp add: lA pl')
  moreover have "length (RS @ RT) = length R" using ls pl n by (simp add: RT_def)
  moreover have "length (CS @ CT) = length C" using ls pl n by (simp add: CT_def)
  moreover have "drop population (RS @ RT) = drop population R" using ls pl by (simp add: RT_def)
  moreover have "drop population (CS @ CT) = drop population C" using ls pl by (simp add: CT_def)
  moreover have "sorted_wrt by_cost_then_rank (zip (take population (RS @ RT)) (take population (CS @ CT)))"
    using s ls pl by simp
  moreover have "mset (zip (take population (RS @ RT)) (take population (CS @ CT)))
         = mset (zip (take population R) (take population C))"
    using m ls pl tR tC by simp
  ultimately show ?thesis by blast
qed

lemma ranked_pairs_facts:
  assumes l: "n \<le> length R'" "n \<le> length C'" "n \<le> length C"
    and s: "sorted_wrt by_cost_then_rank (zip (take n R') (take n C'))"
    and m: "mset (zip (take n R') (take n C')) = mset (zip (map int [0..<n]) (take n C))"
  shows "sorted (take n C')"
    and "\<forall>a<n. 0 \<le> R' ! a \<and> R' ! a < int n \<and> C' ! a = C ! nat (R' ! a)"
    and "\<forall>a b. a < b \<and> b < n \<and> C' ! a = C' ! b \<longrightarrow> R' ! a < R' ! b"
    and "\<forall>j<n. \<exists>a<n. R' ! a = int j"
proof -
  let ?Z = "zip (take n R') (take n C')"
  let ?Y = "zip (map int [0..<n]) (take n C)"
  have lz: "length ?Z = n" using l by simp
  have nz: "\<And>a. a < n \<Longrightarrow> ?Z ! a = (R' ! a, C' ! a)" using l by simp
  have sets: "set ?Z = set ?Y" using m by (rule mset_eq_setD)
  have "sorted_wrt (\<lambda>p q. snd p \<le> snd q) ?Z"
    using s by (rule sorted_wrt_mono_rel[rotated]) (auto simp: by_cost_then_rank_def)
  then have "sorted (map snd ?Z)" by (simp add: sorted_wrt_map)
  moreover have "map snd ?Z = take n C'" using l by (simp add: map_snd_zip_take min_def)
  ultimately show "sorted (take n C')" by simp
  show "\<forall>a<n. 0 \<le> R' ! a \<and> R' ! a < int n \<and> C' ! a = C ! nat (R' ! a)"
  proof (intro allI impI)
    fix a assume a: "a < n"
    then have "(R' ! a, C' ! a) \<in> set ?Z" using nz[OF a] lz by (metis nth_mem)
    then have "(R' ! a, C' ! a) \<in> set ?Y" using sets by simp
    then obtain k where k: "k < n" "int k = R' ! a" "C ! k = C' ! a"
      using l by (auto simp: in_set_zip)
    from k(2) have "nat (R' ! a) = k" by (metis nat_int)
    with k show "0 \<le> R' ! a \<and> R' ! a < int n \<and> C' ! a = C ! nat (R' ! a)"
      by (metis of_nat_0_le_iff of_nat_less_iff)
  qed
  show "\<forall>a b. a < b \<and> b < n \<and> C' ! a = C' ! b \<longrightarrow> R' ! a < R' ! b"
  proof (intro allI impI)
    fix a b assume ab: "a < b \<and> b < n \<and> C' ! a = C' ! b"
    then have "a < b" "b < length ?Z" using lz by simp_all
    then have "by_cost_then_rank (?Z ! a) (?Z ! b)"
      by (rule sorted_wrt_nth_less[OF s])
    with ab nz[of a] nz[of b] show "R' ! a < R' ! b" by (simp add: by_cost_then_rank_def)
  qed
  show "\<forall>j<n. \<exists>a<n. R' ! a = int j"
  proof (intro allI impI)
    fix j assume j: "j < n"
    then have "?Y ! j = (int j, C ! j)" using l by simp
    moreover have "j < length ?Y" using j l by simp
    ultimately have "(int j, C ! j) \<in> set ?Y" by (metis nth_mem)
    then have "(int j, C ! j) \<in> set ?Z" using sets by simp
    then obtain a where "a < n" "?Z ! a = (int j, C ! j)" using lz by (auto simp: in_set_conv_nth)
    with nz[of a] show "\<exists>a<n. R' ! a = int j" by auto
  qed
qed

section \<open>The crossover\<close>

text \<open>What the loops leave untouched, whatever the rows hold: the cells before \<open>son\<close>.\<close>

lemma first_half_loop_frame:
  "first_half_loop generation nodes parent1 son numNodes half j = Some (generation', nodes') \<Longrightarrow>
     length generation' = length generation \<and> (\<forall>x<son. generation' ! x = generation ! x)"
proof (induction generation nodes parent1 son numNodes half j rule: first_half_loop.induct)
  case (1 generation nodes parent1 son numNodes half j)
  show ?case
  proof (cases "j < half")
    case False
    with "1.prems" show ?thesis by (subst (asm) first_half_loop.simps) simp
  next
    case True
    let ?elem = "generation ! (parent1 * numNodes + j)"
    from True "1.prems" have
      r1: "rd generation (parent1 * numNodes + j) = Some ?elem"
      and r2: "wr generation (son + j) ?elem = Some (generation[son + j := ?elem])"
      and rec: "first_half_loop (generation[son + j := ?elem]) (insert ?elem nodes) parent1 son numNodes
                  half (j + 1) = Some (generation', nodes')"
      by (subst (asm) first_half_loop.simps;
          auto simp: bind_eq_Some_conv rd_def wr_def split: if_splits)+
    from "1.IH"[OF True r1 r2 rec] show ?thesis by simp
  qed
qed

lemma remaining_loop_frame:
  "remaining_loop generation nodes parent2 son numNodes j k = Some generation' \<Longrightarrow>
     length generation' = length generation \<and> (\<forall>x<son. generation' ! x = generation ! x)"
proof (induction generation nodes parent2 son numNodes j k rule: remaining_loop.induct)
  case (1 generation nodes parent2 son numNodes j k)
  show ?case
  proof (cases "k < numNodes")
    case False
    with "1.prems" show ?thesis by (subst (asm) remaining_loop.simps) simp
  next
    case True
    let ?elem = "generation ! (parent2 * numNodes + k)"
    from True "1.prems" have r1: "rd generation (parent2 * numNodes + k) = Some ?elem"
      by (subst (asm) remaining_loop.simps; auto simp: bind_eq_Some_conv rd_def split: if_splits)
    show ?thesis
    proof (cases "?elem \<in> nodes")
      case False
      from True False r1 "1.prems" have
        r2: "wr generation (son + j) ?elem = Some (generation[son + j := ?elem])"
        and rec: "remaining_loop (generation[son + j := ?elem]) nodes parent2 son numNodes (j + 1) (k + 1)
                    = Some generation'"
        by (subst (asm) remaining_loop.simps;
            auto simp: bind_eq_Some_conv rd_def wr_def split: if_splits)+
      from "1.IH"(1)[OF True r1 False r2 rec] show ?thesis by simp
    next
      case in_nodes: True
      from True in_nodes r1 "1.prems" have
        rec: "remaining_loop generation nodes parent2 son numNodes j (k + 1) = Some generation'"
        by (subst (asm) remaining_loop.simps) (auto simp: bind_eq_Some_conv rd_def split: if_splits)
      from in_nodes have "\<not> ?elem \<notin> nodes" by simp
      from "1.IH"(2)[OF True r1 this rec] show ?thesis by simp
    qed
  qed
qed

lemma crossover_firstHalf_frame:
  assumes "crossover_firstHalf generation parent1 parent2 son numNodes = Some generation'"
  shows "length generation' = length generation \<and> (\<forall>x<son. generation' ! x = generation ! x)"
proof -
  from assms obtain g1 nodes where
    a: "first_half_loop generation {} parent1 son numNodes (numNodes div 2) 0 = Some (g1, nodes)"
    and b: "remaining_loop g1 nodes parent2 son numNodes (numNodes div 2) 0 = Some generation'"
    by (auto simp: crossover_firstHalf_def Let_def bind_eq_Some_conv)
  from first_half_loop_frame[OF a] remaining_loop_frame[OF b] show ?thesis by simp
qed

text \<open>The rows, cell by cell.\<close>

lemma length_row: "(r + 1) * numNodes \<le> length g \<Longrightarrow> length (row g numNodes r) = numNodes"
  by (simp add: row_def)

lemma row_cong:
  assumes "length g' = length g" "\<forall>x. r * numNodes \<le> x \<and> x < (r + 1) * numNodes \<longrightarrow> g' ! x = g ! x"
  shows "row g' numNodes r = row g numNodes r"
proof (rule nth_equalityI)
  show "length (row g' numNodes r) = length (row g numNodes r)" using assms(1) by (simp add: row_def)
next
  fix k assume "k < length (row g' numNodes r)"
  then have "k < numNodes" "k < length g - r * numNodes" using assms(1) by (simp_all add: row_def)
  then have k: "k < numNodes" "r * numNodes + k < length g" by linarith+
  then have "r * numNodes + k < (r + 1) * numNodes" by simp
  with assms(2) have "g' ! (r * numNodes + k) = g ! (r * numNodes + k)" by simp
  then show "row g' numNodes r ! k = row g numNodes r ! k"
    using k assms(1) by (simp add: row_def)
qed

lemma first_half_loop_spec:
  assumes h: "half \<le> numNodes"
    and p: "(parent1 + 1) * numNodes \<le> length generation"
    and s: "son + numNodes \<le> length generation"
    and d: "(parent1 + 1) * numNodes \<le> son \<or> son + numNodes \<le> parent1 * numNodes"
  shows "j \<le> half \<Longrightarrow> length g = length generation \<Longrightarrow>
     \<forall>x. x < son \<or> son + numNodes \<le> x \<longrightarrow> g ! x = generation ! x \<Longrightarrow>
     \<exists>g'. first_half_loop g nodes parent1 son numNodes half j
            = Some (g', nodes \<union> set (drop j (take half (row generation numNodes parent1))))
        \<and> length g' = length g
        \<and> (\<forall>x. x < son + j \<or> son + half \<le> x \<longrightarrow> g' ! x = g ! x)
        \<and> (\<forall>y. j \<le> y \<and> y < half \<longrightarrow> g' ! (son + y) = row generation numNodes parent1 ! y)"
proof (induction "half - j" arbitrary: j g nodes)
  case 0
  then have "j = half" by simp
  then have "first_half_loop g nodes parent1 son numNodes half j = Some (g, nodes)"
    by (subst first_half_loop.simps) simp
  with \<open>j = half\<close> show ?case by simp
next
  case (Suc m)
  let ?P1 = "row generation numNodes parent1"
  from Suc.hyps(2) have jh: "j < half" by simp
  with h have jn: "j < numNodes" by simp
  have ib: "parent1 * numNodes + j < length generation" using p jn by simp
  have nal: "parent1 * numNodes + j < son \<or> son + numNodes \<le> parent1 * numNodes + j"
    using d jn by auto
  with Suc.prems(3) have "g ! (parent1 * numNodes + j) = generation ! (parent1 * numNodes + j)"
    by blast
  then have e: "g ! (parent1 * numNodes + j) = ?P1 ! j"
    using row_nth[OF p jn] by simp
  have r1: "rd g (parent1 * numNodes + j) = Some (?P1 ! j)"
    using ib Suc.prems(2) e by (simp add: rd_def)
  have wb: "son + j < length g" using s jn Suc.prems(2) by simp
  let ?g1 = "g[son + j := ?P1 ! j]"
  have r2: "wr g (son + j) (?P1 ! j) = Some ?g1" using wb by (simp add: wr_def)
  have step: "first_half_loop g nodes parent1 son numNodes half j
      = first_half_loop ?g1 (insert (?P1 ! j) nodes) parent1 son numNodes half (j + 1)"
    using jh r1 r2 by (subst first_half_loop.simps) simp
  have m: "m = half - (j + 1)" using Suc.hyps(2) by simp
  have fr: "\<forall>x. x < son \<or> son + numNodes \<le> x \<longrightarrow> ?g1 ! x = generation ! x"
    using Suc.prems(3) jn by auto
  from Suc.hyps(1)[OF m, of ?g1 "insert (?P1 ! j) nodes"] jh Suc.prems(2) fr
  obtain g' where
    eq: "first_half_loop ?g1 (insert (?P1 ! j) nodes) parent1 son numNodes half (j + 1)
       = Some (g', insert (?P1 ! j) nodes \<union> set (drop (j + 1) (take half ?P1)))"
    and l: "length g' = length ?g1"
    and out: "\<forall>x. x < son + (j + 1) \<or> son + half \<le> x \<longrightarrow> g' ! x = ?g1 ! x"
    and inn: "\<forall>y. j + 1 \<le> y \<and> y < half \<longrightarrow> g' ! (son + y) = ?P1 ! y" by auto
  have "j < length (take half ?P1)" using jh h length_row[OF p] by simp
  then have "drop j (take half ?P1) = (take half ?P1) ! j # drop (Suc j) (take half ?P1)"
    by (rule Cons_nth_drop_Suc[symmetric])
  then have dr: "set (drop j (take half ?P1)) = insert (?P1 ! j) (set (drop (j + 1) (take half ?P1)))"
    using jh by simp
  have c1: "first_half_loop g nodes parent1 son numNodes half j
      = Some (g', nodes \<union> set (drop j (take half ?P1)))"
    using step eq dr by simp
  have c2: "length g' = length g" using l by simp
  have c3: "\<forall>x. x < son + j \<or> son + half \<le> x \<longrightarrow> g' ! x = g ! x"
    using out jh by auto
  have c4: "\<forall>y. j \<le> y \<and> y < half \<longrightarrow> g' ! (son + y) = ?P1 ! y"
  proof (intro allI impI)
    fix y assume y: "j \<le> y \<and> y < half"
    show "g' ! (son + y) = ?P1 ! y"
    proof (cases "y = j")
      case True
      with out wb show ?thesis by simp
    next
      case False
      with y inn show ?thesis by simp
    qed
  qed
  from c1 c2 c3 c4 show ?case by blast
qed

lemma remaining_loop_spec:
  assumes p: "(parent2 + 1) * numNodes \<le> length generation"
    and s: "son + numNodes \<le> length generation"
    and d: "(parent2 + 1) * numNodes \<le> son \<or> son + numNodes \<le> parent2 * numNodes"
  shows "k \<le> numNodes \<Longrightarrow> length g = length generation \<Longrightarrow>
     \<forall>x. x < son \<or> son + numNodes \<le> x \<longrightarrow> g ! x = generation ! x \<Longrightarrow>
     j + length (filter (\<lambda>x. x \<notin> nodes) (drop k (row generation numNodes parent2))) \<le> numNodes \<Longrightarrow>
     \<exists>g'. remaining_loop g nodes parent2 son numNodes j k = Some g'
        \<and> length g' = length g
        \<and> (\<forall>x. x < son + j \<or>
                 son + j + length (filter (\<lambda>x. x \<notin> nodes) (drop k (row generation numNodes parent2))) \<le> x
               \<longrightarrow> g' ! x = g ! x)
        \<and> (\<forall>y < length (filter (\<lambda>x. x \<notin> nodes) (drop k (row generation numNodes parent2))).
               g' ! (son + j + y) = filter (\<lambda>x. x \<notin> nodes) (drop k (row generation numNodes parent2)) ! y)"
proof (induction "numNodes - k" arbitrary: k j g)
  case 0
  then have "k = numNodes" by simp
  then have "remaining_loop g nodes parent2 son numNodes j k = Some g"
    by (subst remaining_loop.simps) simp
  moreover have "drop k (row generation numNodes parent2) = []"
    using \<open>k = numNodes\<close> length_row[OF p] by simp
  ultimately show ?case by simp
next
  case (Suc m)
  let ?P2 = "row generation numNodes parent2"
  let ?F = "\<lambda>k. filter (\<lambda>x. x \<notin> nodes) (drop k ?P2)"
  from Suc.hyps(2) have kn: "k < numNodes" by simp
  have ib: "parent2 * numNodes + k < length generation" using p kn by simp
  have "parent2 * numNodes + k < son \<or> son + numNodes \<le> parent2 * numNodes + k"
    using d kn by auto
  with Suc.prems(3) have "g ! (parent2 * numNodes + k) = generation ! (parent2 * numNodes + k)"
    by blast
  then have e: "g ! (parent2 * numNodes + k) = ?P2 ! k"
    using row_nth[OF p kn] by simp
  have r1: "rd g (parent2 * numNodes + k) = Some (?P2 ! k)"
    using ib Suc.prems(2) e by (simp add: rd_def)
  have "k < length ?P2" using kn length_row[OF p] by simp
  then have "drop k ?P2 = ?P2 ! k # drop (Suc k) ?P2" by (rule Cons_nth_drop_Suc[symmetric])
  then have dk: "drop k ?P2 = ?P2 ! k # drop (k + 1) ?P2" by simp
  have m: "m = numNodes - (k + 1)" using Suc.hyps(2) by simp
  show ?case
  proof (cases "?P2 ! k \<in> nodes")
    case True
    then have F: "?F k = ?F (k + 1)" using dk by simp
    have step: "remaining_loop g nodes parent2 son numNodes j k
        = remaining_loop g nodes parent2 son numNodes j (k + 1)"
      using kn r1 True by (subst remaining_loop.simps) simp
    from Suc.hyps(1)[OF m, of g j] kn Suc.prems(2,3,4) F
    show ?thesis unfolding step F by simp
  next
    case False
    then have F: "?F k = ?P2 ! k # ?F (k + 1)" using dk by simp
    then have lF: "length (?F k) = Suc (length (?F (k + 1)))" by simp
    with Suc.prems(4) have jn: "j < numNodes" by simp
    have wb: "son + j < length g" using s jn Suc.prems(2) by simp
    let ?g1 = "g[son + j := ?P2 ! k]"
    have r2: "wr g (son + j) (?P2 ! k) = Some ?g1" using wb by (simp add: wr_def)
    have step: "remaining_loop g nodes parent2 son numNodes j k
        = remaining_loop ?g1 nodes parent2 son numNodes (j + 1) (k + 1)"
      using kn r1 r2 False by (subst remaining_loop.simps) simp
    have fr: "\<forall>x. x < son \<or> son + numNodes \<le> x \<longrightarrow> ?g1 ! x = generation ! x"
      using Suc.prems(3) jn by auto
    have cnt: "j + 1 + length (?F (k + 1)) \<le> numNodes" using Suc.prems(4) lF by simp
    from Suc.hyps(1)[OF m, of ?g1 "j + 1"] kn Suc.prems(2) fr cnt
    obtain g' where
      eq: "remaining_loop ?g1 nodes parent2 son numNodes (j + 1) (k + 1) = Some g'"
      and l: "length g' = length ?g1"
      and out: "\<forall>x. x < son + (j + 1) \<or> son + (j + 1) + length (?F (k + 1)) \<le> x \<longrightarrow> g' ! x = ?g1 ! x"
      and inn: "\<forall>y < length (?F (k + 1)). g' ! (son + (j + 1) + y) = ?F (k + 1) ! y" by auto
    have c1: "remaining_loop g nodes parent2 son numNodes j k = Some g'" using step eq by simp
    have c2: "length g' = length g" using l by simp
    have c3: "\<forall>x. x < son + j \<or> son + j + length (?F k) \<le> x \<longrightarrow> g' ! x = g ! x"
      using out lF by auto
    have c4: "\<forall>y < length (?F k). g' ! (son + j + y) = ?F k ! y"
    proof (intro allI impI)
      fix y assume y: "y < length (?F k)"
      show "g' ! (son + j + y) = ?F k ! y"
      proof (cases y)
        case 0
        with out wb F show ?thesis by simp
      next
        case (Suc y')
        with y lF have "y' < length (?F (k + 1))" by simp
        with inn have "g' ! (son + (j + 1) + y') = ?F (k + 1) ! y'" by simp
        with Suc F show ?thesis by simp
      qed
    qed
    from c1 c2 c3 c4 show ?thesis by blast
  qed
qed

section \<open>Tours\<close>

lemma is_tour_iff: "is_tour numNodes t \<longleftrightarrow> distinct t \<and> set t = {0..<int numNodes}"
proof
  assume t: "is_tour numNodes t"
  then have sub: "set t \<subseteq> {0..<int numNodes}" by (auto simp: is_tour_def list_all_iff)
  have "card (set t) = numNodes" using t by (simp add: is_tour_def distinct_card)
  then have "card (set t) = card {0..<int numNodes}" by simp
  with sub have "set t = {0..<int numNodes}" by (intro card_subset_eq) simp_all
  with t show "distinct t \<and> set t = {0..<int numNodes}" by (simp add: is_tour_def)
next
  assume a: "distinct t \<and> set t = {0..<int numNodes}"
  then have "length t = card {0..<int numNodes}" by (metis distinct_card)
  with a show "is_tour numNodes t" by (auto simp: is_tour_def list_all_iff)
qed

lemma is_tour_length: "is_tour numNodes t \<Longrightarrow> length t = numNodes"
  by (simp add: is_tour_def)

lemma is_tour_mset: "mset t' = mset t \<Longrightarrow> is_tour numNodes t \<Longrightarrow> is_tour numNodes t'"
  unfolding is_tour_iff by (metis mset_eq_setD mset_eq_imp_distinct_iff)

lemma is_tour_perm: "is_tour numNodes t \<longleftrightarrow> mset t = mset (map int [0..<numNodes])"
proof
  assume "is_tour numNodes t"
  then have "distinct t" "set t = set (map int [0..<numNodes])"
    by (simp_all add: is_tour_iff image_int_atLeastLessThan)
  moreover have "distinct (map int [0..<numNodes])" by (simp add: distinct_map)
  ultimately show "mset t = mset (map int [0..<numNodes])"
    by (metis set_eq_iff_mset_eq_distinct)
next
  assume m: "mset t = mset (map int [0..<numNodes])"
  have "is_tour numNodes (map int [0..<numNodes])"
    by (auto simp: is_tour_def distinct_map list_all_iff)
  with m show "is_tour numNodes t" by (rule is_tour_mset)
qed

lemma remaining_count:
  assumes "is_tour numNodes p1" "is_tour numNodes p2"
  shows "length (filter (\<lambda>x. x \<notin> set (take h p1)) p2) = numNodes - min h numNodes"
proof -
  let ?A = "set (take h p1)"
  have d1: "distinct p1" and d2: "distinct p2" and s: "set p1 = set p2"
    using assms by (simp_all add: is_tour_iff)
  have "?A \<subseteq> set p2" using s by (auto dest: in_set_takeD)
  then have "{x. x \<in> ?A} \<inter> set p2 = ?A" by auto
  then have "length (filter (\<lambda>x. x \<in> ?A) p2) = card ?A"
    using distinct_length_filter[OF d2, of "\<lambda>x. x \<in> ?A"] by simp
  also have "\<dots> = length (take h p1)" using d1 by (simp add: distinct_card)
  also have "\<dots> = min h numNodes" using assms(1) by (simp add: is_tour_def min.commute)
  finally have "length (filter (\<lambda>x. x \<in> ?A) p2) = min h numNodes" .
  moreover have "length (filter (\<lambda>x. x \<in> ?A) p2) + length (filter (\<lambda>x. \<not> x \<in> ?A) p2) = length p2"
    by (rule sum_length_filter_compl)
  ultimately show ?thesis using assms(2) by (simp add: is_tour_def)
qed

lemma child_is_tour:
  assumes "is_tour numNodes p1" "is_tour numNodes p2"
  shows "is_tour numNodes (child numNodes p1 p2)"
proof -
  let ?A = "set (take (numNodes div 2) p1)"
  have d1: "distinct p1" and d2: "distinct p2" and s: "set p1 = set p2"
    and s2: "set p2 = {0..<int numNodes}"
    using assms by (simp_all add: is_tour_iff)
  have sub: "?A \<subseteq> set p2" using s by (auto dest: in_set_takeD)
  have "distinct (child numNodes p1 p2)" using d1 d2 by (auto simp: child_def)
  moreover have "set (child numNodes p1 p2) = set p2" using sub by (auto simp: child_def)
  ultimately show ?thesis using s2 by (simp add: is_tour_iff)
qed

lemma tour_row_bound:
  assumes "is_tour numNodes (row g numNodes r)"
  shows "(r + 1) * numNodes \<le> length g"
proof (cases "numNodes = 0")
  case True
  then show ?thesis by simp
next
  case False
  from assms have "length (row g numNodes r) = numNodes" by (rule is_tour_length)
  then have "min (length g - r * numNodes) numNodes = numNodes" by (simp add: row_def)
  with False have "numNodes \<le> length g - r * numNodes" by linarith
  with False show ?thesis by simp
qed

lemma crossover_firstHalf_spec:
  assumes t1: "is_tour numNodes (row generation numNodes parent1)"
    and t2: "is_tour numNodes (row generation numNodes parent2)"
    and s: "son + numNodes \<le> length generation"
    and d1: "(parent1 + 1) * numNodes \<le> son \<or> son + numNodes \<le> parent1 * numNodes"
    and d2: "(parent2 + 1) * numNodes \<le> son \<or> son + numNodes \<le> parent2 * numNodes"
  shows "\<exists>generation'. crossover_firstHalf generation parent1 parent2 son numNodes = Some generation'
     \<and> length generation' = length generation
     \<and> (\<forall>x. x < son \<or> son + numNodes \<le> x \<longrightarrow> generation' ! x = generation ! x)
     \<and> take numNodes (drop son generation')
          = child numNodes (row generation numNodes parent1) (row generation numNodes parent2)"
proof -
  let ?P1 = "row generation numNodes parent1" and ?P2 = "row generation numNodes parent2"
  let ?h = "numNodes div 2"
  let ?A = "set (take ?h ?P1)"
  let ?F = "filter (\<lambda>x. x \<notin> ?A) ?P2"
  have h: "?h \<le> numNodes" by simp
  note b1 = tour_row_bound[OF t1] and b2 = tour_row_bound[OF t2]
  from first_half_loop_spec[OF h b1 s d1, of 0 generation "{}"]
  obtain g1 where
    f1: "first_half_loop generation {} parent1 son numNodes ?h 0 = Some (g1, ?A)"
    and l1: "length g1 = length generation"
    and out1: "\<forall>x. x < son + 0 \<or> son + ?h \<le> x \<longrightarrow> g1 ! x = generation ! x"
    and in1: "\<forall>y. 0 \<le> y \<and> y < ?h \<longrightarrow> g1 ! (son + y) = ?P1 ! y" by auto
  have lF: "length ?F = numNodes - ?h"
    using remaining_count[OF t1 t2, of ?h] by (simp add: min_def)
  have fr1: "\<forall>x. x < son \<or> son + numNodes \<le> x \<longrightarrow> g1 ! x = generation ! x"
    using out1 h by auto
  have cnt: "?h + length (filter (\<lambda>x. x \<notin> ?A) (drop 0 ?P2)) \<le> numNodes" using lF by simp
  from remaining_loop_spec[OF b2 s d2 _ l1 fr1 cnt]
  obtain g2 where
    f2: "remaining_loop g1 ?A parent2 son numNodes ?h 0 = Some g2"
    and l2: "length g2 = length g1"
    and out2: "\<forall>x. x < son + ?h \<or> son + ?h + length ?F \<le> x \<longrightarrow> g2 ! x = g1 ! x"
    and in2: "\<forall>y < length ?F. g2 ! (son + ?h + y) = ?F ! y" by auto
  have c1: "crossover_firstHalf generation parent1 parent2 son numNodes = Some g2"
    using f1 f2 by (simp add: crossover_firstHalf_def)
  have c2: "length g2 = length generation" using l1 l2 by simp
  have c3: "\<forall>x. x < son \<or> son + numNodes \<le> x \<longrightarrow> g2 ! x = generation ! x"
  proof (intro allI impI)
    fix x assume x: "x < son \<or> son + numNodes \<le> x"
    then have "x < son + ?h \<or> son + ?h + length ?F \<le> x" using lF h by auto
    with out2 have "g2 ! x = g1 ! x" by blast
    moreover from fr1 x have "g1 ! x = generation ! x" by blast
    ultimately show "g2 ! x = generation ! x" by simp
  qed
  have lc: "length (child numNodes ?P1 ?P2) = numNodes"
    using child_is_tour[OF t1 t2] by (rule is_tour_length)
  have lt: "length (take ?h ?P1) = ?h" using is_tour_length[OF t1] by simp
  have c4: "take numNodes (drop son g2) = child numNodes ?P1 ?P2"
  proof (rule nth_equalityI)
    show "length (take numNodes (drop son g2)) = length (child numNodes ?P1 ?P2)"
      using lc c2 s by simp
  next
    fix y assume "y < length (take numNodes (drop son g2))"
    then have y: "y < numNodes" by simp
    have lhs: "take numNodes (drop son g2) ! y = g2 ! (son + y)" using y c2 s by simp
    show "take numNodes (drop son g2) ! y = child numNodes ?P1 ?P2 ! y"
    proof (cases "y < ?h")
      case True
      then have "g2 ! (son + y) = g1 ! (son + y)" using out2 by simp
      also have "\<dots> = ?P1 ! y" using in1 True by simp
      also have "\<dots> = child numNodes ?P1 ?P2 ! y"
        using True lt by (simp add: child_def nth_append)
      finally show ?thesis using lhs by simp
    next
      case False
      then have yh: "y - ?h < length ?F" using y lF by simp
      with in2 have "g2 ! (son + ?h + (y - ?h)) = ?F ! (y - ?h)" by simp
      moreover have "son + ?h + (y - ?h) = son + y" using False by simp
      moreover have "child numNodes ?P1 ?P2 ! y = ?F ! (y - ?h)"
        using False lt by (simp add: child_def nth_append)
      ultimately show ?thesis using lhs by simp
    qed
  qed
  from c1 c2 c3 c4 show ?thesis by blast
qed

lemma mutation_frame:
  assumes "mutation generation son numNodes mutatProb rs = Some (generation', rs')"
  shows "length generation' = length generation \<and> (\<forall>x<son. generation' ! x = generation ! x)"
  using mutation_done[OF assms] by auto

lemma mutation_row:
  assumes m: "mutation generation son numNodes mutatProb rs = Some (generation', rs')"
    and s: "son + numNodes \<le> length generation"
  shows "(\<forall>x. x < son \<or> son + numNodes \<le> x \<longrightarrow> generation' ! x = generation ! x)
     \<and> mset (take numNodes (drop son generation')) = mset (take numNodes (drop son generation))"
proof -
  from mutation_done[OF m] show ?thesis
  proof
    assume "generation' = generation"
    then show ?thesis by simp
  next
    assume "\<exists>swap1 swap2. swap1 < numNodes \<and> swap2 < numNodes \<and> swap1 \<noteq> swap2 \<and>
           son + swap1 < length generation \<and> son + swap2 < length generation \<and>
           generation' = generation[son + swap1 := generation ! (son + swap2),
                                    son + swap2 := generation ! (son + swap1)]"
    then obtain swap1 swap2 where b: "swap1 < numNodes" "swap2 < numNodes"
      and g': "generation' = generation[son + swap1 := generation ! (son + swap2),
                                    son + swap2 := generation ! (son + swap1)]" by blast
    let ?r = "take numNodes (drop son generation)"
    have lr: "length ?r = numNodes" using s by simp
    have n1: "?r ! swap1 = generation ! (son + swap1)" "?r ! swap2 = generation ! (son + swap2)"
      using b s by simp_all
    have "take numNodes (drop son generation') = ?r[swap1 := ?r ! swap2, swap2 := ?r ! swap1]"
      unfolding g' n1 by (simp add: drop_update_swap take_update_swap)
    then have "mset (take numNodes (drop son generation')) = mset ?r"
      using mset_swap[of swap2 ?r swap1] b lr by simp
    moreover have "\<forall>x. x < son \<or> son + numNodes \<le> x \<longrightarrow> generation' ! x = generation ! x"
      using g' b by auto
    ultimately show ?thesis by simp
  qed
qed

lemma crossover_frame:
  assumes "crossover_firstHalf_withMutation generation parent1 parent2 son numNodes mutatProb rs
             = Some (generation', rs')"
  shows "length generation' = length generation \<and> (\<forall>x<son. generation' ! x = generation ! x)"
proof -
  from assms obtain g where g: "crossover_firstHalf generation parent1 parent2 son numNodes = Some g"
    and m: "mutation g son numNodes mutatProb rs = Some (generation', rs')"
    by (auto simp: crossover_firstHalf_withMutation_def bind_eq_Some_conv)
  from crossover_firstHalf_frame[OF g] mutation_frame[OF m] show ?thesis by simp
qed

lemma crossover_child_tour:
  assumes t1: "is_tour numNodes (row generation numNodes parent1)"
    and t2: "is_tour numNodes (row generation numNodes parent2)"
    and s: "son + numNodes \<le> length generation"
    and d1: "(parent1 + 1) * numNodes \<le> son \<or> son + numNodes \<le> parent1 * numNodes"
    and d2: "(parent2 + 1) * numNodes \<le> son \<or> son + numNodes \<le> parent2 * numNodes"
    and c: "crossover_firstHalf_withMutation generation parent1 parent2 son numNodes mutatProb rs
             = Some (generation', rs')"
  shows "length generation' = length generation
     \<and> (\<forall>x. x < son \<or> son + numNodes \<le> x \<longrightarrow> generation' ! x = generation ! x)
     \<and> is_tour numNodes (take numNodes (drop son generation'))
     \<and> mset (take numNodes (drop son generation'))
          = mset (child numNodes (row generation numNodes parent1) (row generation numNodes parent2))"
proof -
  from crossover_firstHalf_spec[OF t1 t2 s d1 d2] obtain g where
    g: "crossover_firstHalf generation parent1 parent2 son numNodes = Some g"
    and l: "length g = length generation"
    and fr: "\<forall>x. x < son \<or> son + numNodes \<le> x \<longrightarrow> g ! x = generation ! x"
    and ch: "take numNodes (drop son g)
          = child numNodes (row generation numNodes parent1) (row generation numNodes parent2)" by blast
  from c g have m: "mutation g son numNodes mutatProb rs = Some (generation', rs')"
    by (simp add: crossover_firstHalf_withMutation_def)
  have sg: "son + numNodes \<le> length g" using s l by simp
  from mutation_row[OF m sg] mutation_frame[OF m] have
    fr': "\<forall>x. x < son \<or> son + numNodes \<le> x \<longrightarrow> generation' ! x = g ! x"
    and ms: "mset (take numNodes (drop son generation')) = mset (take numNodes (drop son g))"
    and l': "length generation' = length g" by simp_all
  have "is_tour numNodes (take numNodes (drop son g))"
    unfolding ch using t1 t2 by (rule child_is_tour)
  with ms have "is_tour numNodes (take numNodes (drop son generation'))" by (rule is_tour_mset)
  with l l' fr fr' ms ch show ?thesis by simp
qed

section \<open>The reproduction\<close>

lemma generate_loop_frame:
  "generate_loop generation population best_num numNodes mutatProb rs i = Some (generation', rs') \<Longrightarrow>
     length generation' = length generation \<and>
     (\<forall>x < (best_num + i) * numNodes. generation' ! x = generation ! x)"
proof (induction generation population best_num numNodes mutatProb rs i rule: generate_loop.induct)
  case (1 generation population best_num numNodes mutatProb rs i)
  show ?case
  proof (cases "i < population - best_num")
    case False
    with "1.prems" show ?thesis by (subst (asm) generate_loop.simps) simp
  next
    case True
    from True "1.prems" obtain parent1 parent2 rs1 g1 rs2 where
      sp: "select_parents best_num i rs = Some (parent1, parent2, rs1)"
      and cr: "crossover_firstHalf_withMutation generation parent1 parent2 ((best_num + i) * numNodes)
                 numNodes mutatProb rs1 = Some (g1, rs2)"
      and rec: "generate_loop g1 population best_num numNodes mutatProb rs2 (i + 1) = Some (generation', rs')"
      by (subst (asm) generate_loop.simps) (auto simp: bind_eq_Some_conv Let_def)
    have x: "(parent1, parent2, rs1) = (parent1, parent2, rs1)" "(parent2, rs1) = (parent2, rs1)"
      "(g1, rs2) = (g1, rs2)" by simp_all
    from "1.IH"[OF True sp x(1) x(2) refl cr x(3) rec]
    have "length generation' = length g1"
      and "\<forall>x < (best_num + (i + 1)) * numNodes. generation' ! x = g1 ! x" by simp_all
    with crossover_frame[OF cr] show ?thesis by auto
  qed
qed

lemma generate_loop_tours:
  "generate_loop generation population best_num numNodes mutatProb rs i = Some (generation', rs') \<Longrightarrow>
   \<forall>a < best_num + i. is_tour numNodes (row generation numNodes a) \<Longrightarrow>
   population * numNodes \<le> length generation \<Longrightarrow>
     (\<forall>a < population. is_tour numNodes (row generation' numNodes a)) \<and>
     (\<forall>x. population * numNodes \<le> x \<longrightarrow> generation' ! x = generation ! x)"
proof (induction generation population best_num numNodes mutatProb rs i rule: generate_loop.induct)
  case (1 generation population best_num numNodes mutatProb rs i)
  show ?case
  proof (cases "i < population - best_num")
    case False
    with "1.prems"(1) have "generation' = generation" by (subst (asm) generate_loop.simps) simp
    moreover from False have "population \<le> best_num + i" by simp
    ultimately show ?thesis using "1.prems"(2) by simp
  next
    case True
    let ?son = "(best_num + i) * numNodes"
    from True "1.prems"(1) obtain parent1 parent2 rs1 g1 rs2 where
      sp: "select_parents best_num i rs = Some (parent1, parent2, rs1)"
      and cr: "crossover_firstHalf_withMutation generation parent1 parent2 ?son
                 numNodes mutatProb rs1 = Some (g1, rs2)"
      and rec: "generate_loop g1 population best_num numNodes mutatProb rs2 (i + 1) = Some (generation', rs')"
      by (subst (asm) generate_loop.simps) (auto simp: bind_eq_Some_conv Let_def)
    have x: "(parent1, parent2, rs1) = (parent1, parent2, rs1)" "(parent2, rs1) = (parent2, rs1)"
      "(g1, rs2) = (g1, rs2)" by simp_all
    from select_parents_bounds[OF sp] have pb: "parent1 < best_num" "parent2 < best_num" by simp_all
    have t1: "is_tour numNodes (row generation numNodes parent1)"
      and t2: "is_tour numNodes (row generation numNodes parent2)"
      using pb "1.prems"(2) by simp_all
    have "(best_num + i + 1) * numNodes \<le> population * numNodes"
      using True by (intro mult_le_mono1) simp
    then have sn: "?son + numNodes \<le> population * numNodes" by simp
    with "1.prems"(3) have s: "?son + numNodes \<le> length generation" by simp
    have d: "\<And>p. p < best_num \<Longrightarrow> (p + 1) * numNodes \<le> ?son"
      by (intro mult_le_mono1) simp
    from crossover_child_tour[OF t1 t2 s _ _ cr] d[OF pb(1)] d[OF pb(2)] have
      l1: "length g1 = length generation"
      and fr: "\<forall>x. x < ?son \<or> ?son + numNodes \<le> x \<longrightarrow> g1 ! x = generation ! x"
      and ct: "is_tour numNodes (take numNodes (drop ?son g1))" by simp_all
    have rows: "\<forall>a < best_num + (i + 1). is_tour numNodes (row g1 numNodes a)"
    proof (intro allI impI)
      fix a assume a: "a < best_num + (i + 1)"
      show "is_tour numNodes (row g1 numNodes a)"
      proof (cases "a = best_num + i")
        case True
        with ct show ?thesis by (simp add: row_def)
      next
        case False
        with a have a': "a < best_num + i" by simp
        then have "(a + 1) * numNodes \<le> ?son" by (intro mult_le_mono1) simp
        then have "\<forall>x. a * numNodes \<le> x \<and> x < (a + 1) * numNodes \<longrightarrow> g1 ! x = generation ! x"
          using fr by auto
        from row_cong[OF l1 this] "1.prems"(2) a' show ?thesis by simp
      qed
    qed
    have l: "population * numNodes \<le> length g1" using l1 "1.prems"(3) by simp
    from "1.IH"[OF True sp x(1) x(2) refl cr x(3) rec rows l]
    have r1: "\<forall>a < population. is_tour numNodes (row generation' numNodes a)"
      and r2: "\<forall>x. population * numNodes \<le> x \<longrightarrow> generation' ! x = g1 ! x" by simp_all
    have "\<forall>x. population * numNodes \<le> x \<longrightarrow> generation' ! x = generation ! x"
    proof (intro allI impI)
      fix x assume x: "population * numNodes \<le> x"
      with sn have "?son + numNodes \<le> x" by simp
      with fr have "g1 ! x = generation ! x" by blast
      with r2 x show "generation' ! x = generation ! x" by simp
    qed
    with r1 show ?thesis by simp
  qed
qed

section \<open>The promotion of the elite rows\<close>

lemma copy_range_Some:
  assumes "copy_range src s n dst d = Some dst'"
  shows "0 \<le> s \<and> nat s + n \<le> length src \<and> d + n \<le> length dst \<and> length dst' = length dst
     \<and> take d dst' = take d dst
     \<and> take n (drop d dst') = take n (drop (nat s) src)
     \<and> drop (d + n) dst' = drop (d + n) dst"
proof -
  from assms have b: "0 \<le> s" "nat s + n \<le> length src" "d + n \<le> length dst"
    and e: "dst' = take d dst @ take n (drop (nat s) src) @ drop (d + n) dst"
    by (auto simp: copy_range_def split: if_splits)
  from b e show ?thesis by simp
qed

lemma take_eq_le: "take m xs = take m ys \<Longrightarrow> k \<le> m \<Longrightarrow> take k xs = take k ys"
  by (metis min.absorb2 min.commute take_take)

lemma take_eq_mid: "take m xs = take m ys \<Longrightarrow> d + n \<le> m \<Longrightarrow> take n (drop d xs) = take n (drop d ys)"
proof -
  assume a: "take m xs = take m ys" "d + n \<le> m"
  have "take n (drop d xs) = take n (drop d (take m xs))" using a(2) by (simp add: drop_take)
  also have "\<dots> = take n (drop d (take m ys))" using a(1) by simp
  also have "\<dots> = take n (drop d ys)" using a(2) by (simp add: drop_take)
  finally show ?thesis .
qed

lemma drop_eq_le: "drop m xs = drop m ys \<Longrightarrow> m \<le> k \<Longrightarrow> drop k xs = drop k ys"
  by (metis le_add_diff_inverse add.commute drop_drop)

lemma move_loop_Some:
  "move_loop generation_rank generation generation_copy numNodes best_num i = Some generation_copy' \<Longrightarrow>
     length generation_copy' = length generation_copy
     \<and> take (i * numNodes) generation_copy' = take (i * numNodes) generation_copy
     \<and> (i \<le> best_num \<longrightarrow> drop (best_num * numNodes) generation_copy' = drop (best_num * numNodes) generation_copy)
     \<and> (\<forall>a. i \<le> a \<and> a < best_num \<longrightarrow>
           a < length generation_rank \<and> 0 \<le> generation_rank ! a * int numNodes
           \<and> nat (generation_rank ! a * int numNodes) + numNodes \<le> length generation
           \<and> (a + 1) * numNodes \<le> length generation_copy
           \<and> row generation_copy' numNodes a
                = take numNodes (drop (nat (generation_rank ! a * int numNodes)) generation))"
proof (induction generation_rank generation generation_copy numNodes best_num i rule: move_loop.induct)
  case (1 generation_rank generation generation_copy numNodes best_num i)
  show ?case
  proof (cases "i < best_num")
    case False
    with "1.prems" have "generation_copy' = generation_copy" by (subst (asm) move_loop.simps) simp
    moreover from False have "\<forall>a. \<not> (i \<le> a \<and> a < best_num)" by auto
    moreover from False have "i \<le> best_num \<longrightarrow> i = best_num" by auto
    ultimately show ?thesis by blast
  next
    case True
    let ?r = "generation_rank ! i"
    from True "1.prems" obtain c1 where
      r1: "rd generation_rank i = Some ?r"
      and cp: "copy_range generation (?r * int numNodes) numNodes generation_copy (i * numNodes) = Some c1"
      and rec: "move_loop generation_rank generation c1 numNodes best_num (i + 1) = Some generation_copy'"
      by (subst (asm) move_loop.simps) (auto simp: bind_eq_Some_conv rd_def split: if_splits)
    have il: "i < length generation_rank" using r1 by (simp add: rd_def split: if_splits)
    from copy_range_Some[OF cp] have
      b: "0 \<le> ?r * int numNodes" "nat (?r * int numNodes) + numNodes \<le> length generation"
         "i * numNodes + numNodes \<le> length generation_copy"
      and l1: "length c1 = length generation_copy"
      and t1: "take (i * numNodes) c1 = take (i * numNodes) generation_copy"
      and m1: "take numNodes (drop (i * numNodes) c1)
                 = take numNodes (drop (nat (?r * int numNodes)) generation)"
      and d1: "drop (i * numNodes + numNodes) c1 = drop (i * numNodes + numNodes) generation_copy"
      by simp_all
    from "1.IH"[OF True r1 cp rec] have
      l2: "length generation_copy' = length c1"
      and t2: "take ((i + 1) * numNodes) generation_copy' = take ((i + 1) * numNodes) c1"
      and d2: "drop (best_num * numNodes) generation_copy' = drop (best_num * numNodes) c1"
      and rows: "\<forall>a. i + 1 \<le> a \<and> a < best_num \<longrightarrow>
           a < length generation_rank \<and> 0 \<le> generation_rank ! a * int numNodes
           \<and> nat (generation_rank ! a * int numNodes) + numNodes \<le> length generation
           \<and> (a + 1) * numNodes \<le> length c1
           \<and> row generation_copy' numNodes a
                = take numNodes (drop (nat (generation_rank ! a * int numNodes)) generation)"
      using True by simp_all
    have c1: "length generation_copy' = length generation_copy" using l1 l2 by simp
    have "take (i * numNodes) generation_copy' = take (i * numNodes) c1"
      using take_eq_le[OF t2, of "i * numNodes"] by simp
    with t1 have c2: "take (i * numNodes) generation_copy' = take (i * numNodes) generation_copy" by simp
    have "i * numNodes + numNodes \<le> best_num * numNodes"
      using True mult_le_mono1[of "i + 1" best_num numNodes] by simp
    then have "drop (best_num * numNodes) c1 = drop (best_num * numNodes) generation_copy"
      using drop_eq_le[OF d1] by simp
    with d2 have c3: "drop (best_num * numNodes) generation_copy' = drop (best_num * numNodes) generation_copy"
      by simp
    have "take numNodes (drop (i * numNodes) generation_copy') = take numNodes (drop (i * numNodes) c1)"
      using take_eq_mid[OF t2, of "i * numNodes" numNodes] by simp
    with m1 have ri: "row generation_copy' numNodes i
                = take numNodes (drop (nat (?r * int numNodes)) generation)" by (simp add: row_def)
    have c4: "\<forall>a. i \<le> a \<and> a < best_num \<longrightarrow>
           a < length generation_rank \<and> 0 \<le> generation_rank ! a * int numNodes
           \<and> nat (generation_rank ! a * int numNodes) + numNodes \<le> length generation
           \<and> (a + 1) * numNodes \<le> length generation_copy
           \<and> row generation_copy' numNodes a
                = take numNodes (drop (nat (generation_rank ! a * int numNodes)) generation)"
    proof (intro allI impI)
      fix a assume a: "i \<le> a \<and> a < best_num"
      show "a < length generation_rank \<and> 0 \<le> generation_rank ! a * int numNodes
           \<and> nat (generation_rank ! a * int numNodes) + numNodes \<le> length generation
           \<and> (a + 1) * numNodes \<le> length generation_copy
           \<and> row generation_copy' numNodes a
                = take numNodes (drop (nat (generation_rank ! a * int numNodes)) generation)"
      proof (cases "a = i")
        case True
        with il b ri show ?thesis by simp
      next
        case False
        with a have "i + 1 \<le> a \<and> a < best_num" by simp
        with rows l1 show ?thesis by simp
      qed
    qed
    from c1 c2 c3 c4 show ?thesis by blast
  qed
qed

lemma row_of_rank:
  assumes "0 \<le> r * int numNodes"
  shows "take numNodes (drop (nat (r * int numNodes)) generation) = row generation numNodes (nat r)"
proof (cases "numNodes = 0")
  case True
  then show ?thesis by (simp add: row_def)
next
  case False
  with assms have "0 \<le> r" by (simp add: zero_le_mult_iff)
  then have "nat (r * int numNodes) = nat r * numNodes" by (simp add: nat_mult_distrib)
  then show ?thesis by (simp add: row_def)
qed

section \<open>The ranking\<close>

lemma rank_generation_Some:
  assumes "rank_generation generation_rank generation_cost generation cost_matrix numNodes population best_num
             = Some (rank', cost')"
  shows "population \<le> length rank' \<and> population \<le> length cost' \<and> population \<le> length generation_cost
     \<and> length rank' = length generation_rank \<and> length cost' = length generation_cost
     \<and> (\<forall>a<population. (a + 1) * numNodes \<le> length generation)
     \<and> sorted_wrt by_cost_then_rank (zip (take population rank') (take population cost'))
     \<and> (\<exists>C. population \<le> length C
           \<and> (\<forall>i<population. C ! i = generation_cost ! i + tour_cost cost_matrix numNodes (row generation numNodes i))
           \<and> mset (zip (take population rank') (take population cost'))
               = mset (zip (map int [0..<population]) (take population C)))"
proof -
  from assms obtain R C where
    cl: "cost_loop generation_rank generation_cost generation cost_matrix numNodes population 0 = Some (R, C)"
    and sv: "sort_vector R C population = (rank', cost')"
    by (auto simp: rank_generation_def bind_eq_Some_conv)
  from cost_loop_Some[OF cl] have
    lR: "length R = length generation_rank" and lC: "length C = length generation_cost"
    and up: "\<forall>a. 0 \<le> a \<and> a < population \<longrightarrow>
        a < length generation_rank \<and> a < length generation_cost \<and>
        (a + 1) * numNodes \<le> length generation \<and> 0 < numNodes \<and>
        R ! a = int a \<and>
        C ! a = generation_cost ! a + tour_cost cost_matrix numNodes (row generation numNodes a)"
    by simp_all
  have pl: "population \<le> length generation_rank \<and> population \<le> length generation_cost"
  proof (cases population)
    case 0
    then show ?thesis by simp
  next
    case (Suc p)
    with up have "p < length generation_rank \<and> p < length generation_cost" by simp
    with Suc show ?thesis by simp
  qed
  have id: "take population R = map int [0..<population]"
  proof (rule nth_equalityI)
    show "length (take population R) = length (map int [0..<population])" using pl lR by simp
  next
    fix a assume "a < length (take population R)"
    then have "a < population" by simp
    with up show "take population R ! a = map int [0..<population] ! a" by simp
  qed
  from sort_vector_spec[of population R C] pl lR lC id sv have
    l': "length rank' = length R" "length cost' = length C"
    and s: "sorted_wrt by_cost_then_rank (zip (take population rank') (take population cost'))"
    and m: "mset (zip (take population rank') (take population cost'))
         = mset (zip (take population R) (take population C))" by auto
  have "population \<le> length C
           \<and> (\<forall>i<population. C ! i = generation_cost ! i + tour_cost cost_matrix numNodes (row generation numNodes i))
           \<and> mset (zip (take population rank') (take population cost'))
               = mset (zip (map int [0..<population]) (take population C))"
    using pl lC up m id by simp
  then have "\<exists>C. population \<le> length C
           \<and> (\<forall>i<population. C ! i = generation_cost ! i + tour_cost cost_matrix numNodes (row generation numNodes i))
           \<and> mset (zip (take population rank') (take population cost'))
               = mset (zip (map int [0..<population]) (take population C))" by blast
  moreover have "\<forall>a<population. (a + 1) * numNodes \<le> length generation" using up by simp
  ultimately show ?thesis using pl l' lR lC s by simp
qed

lemma rank_generation_entries:
  assumes "rank_generation generation_rank generation_cost generation cost_matrix numNodes population best_num
             = Some (rank', cost')"
  shows "(\<forall>a<population. 0 \<le> rank' ! a \<and> rank' ! a < int population \<and>
            cost' ! a = generation_cost ! nat (rank' ! a)
                        + tour_cost cost_matrix numNodes (row generation numNodes (nat (rank' ! a))))
       \<and> (\<forall>i<population. \<exists>a<population. rank' ! a = int i)
       \<and> ((\<forall>i<population. generation_cost ! i = 0) \<longrightarrow>
            (\<forall>a<population. cost' ! a = tour_cost cost_matrix numNodes (row generation numNodes (nat (rank' ! a)))))"
proof -
  from rank_generation_Some[OF assms] obtain C where
    l: "population \<le> length rank'" "population \<le> length cost'" "population \<le> length C"
    and s: "sorted_wrt by_cost_then_rank (zip (take population rank') (take population cost'))"
    and C: "\<forall>i<population. C ! i = generation_cost ! i + tour_cost cost_matrix numNodes (row generation numNodes i)"
    and m: "mset (zip (take population rank') (take population cost'))
               = mset (zip (map int [0..<population]) (take population C))" by blast
  note f = ranked_pairs_facts[OF l s m]
  have a: "\<forall>a<population. 0 \<le> rank' ! a \<and> rank' ! a < int population \<and>
            cost' ! a = generation_cost ! nat (rank' ! a)
                        + tour_cost cost_matrix numNodes (row generation numNodes (nat (rank' ! a)))"
  proof (intro allI impI)
    fix a assume a: "a < population"
    with f(2) have r: "0 \<le> rank' ! a" "rank' ! a < int population" "cost' ! a = C ! nat (rank' ! a)"
      by simp_all
    then have "nat (rank' ! a) < population" by simp
    with C r show "0 \<le> rank' ! a \<and> rank' ! a < int population \<and>
            cost' ! a = generation_cost ! nat (rank' ! a)
                        + tour_cost cost_matrix numNodes (row generation numNodes (nat (rank' ! a)))"
      by simp
  qed
  have c: "(\<forall>i<population. generation_cost ! i = 0) \<longrightarrow>
            (\<forall>a<population. cost' ! a = tour_cost cost_matrix numNodes (row generation numNodes (nat (rank' ! a))))"
  proof (intro allI impI)
    fix a assume z: "\<forall>i<population. generation_cost ! i = 0" and a': "a < population"
    with a have r: "0 \<le> rank' ! a" "rank' ! a < int population" "cost' ! a = generation_cost ! nat (rank' ! a)
                        + tour_cost cost_matrix numNodes (row generation numNodes (nat (rank' ! a)))"
      by simp_all
    then have "nat (rank' ! a) < population" by simp
    with z r show "cost' ! a = tour_cost cost_matrix numNodes (row generation numNodes (nat (rank' ! a)))"
      by simp
  qed
  from a f(4) c show ?thesis by blast
qed






section \<open>The ranking returns on well-formed arrays\<close>

lemma matrix_index_bound:
  assumes "0 \<le> s" "s < int n" "0 \<le> d" "d < int n" and cm: "n * n \<le> length cost_matrix"
  shows "rdi cost_matrix (s * int n + d) = Some (cost_matrix ! nat (s * int n + d))"
proof -
  have "int (n * n) \<le> int (length cost_matrix)" using cm by (simp only: of_nat_le_iff)
  moreover have "0 \<le> s * int n + d \<and> s * int n + d < int (n * n)"
  proof -
  have "s \<le> int n - 1" using assms by simp
  then have "s * int n \<le> (int n - 1) * int n" using assms by (intro mult_right_mono) simp_all
  then have "s * int n + d < (int n - 1) * int n + int n" using assms by linarith
  also have "\<dots> = int (n * n)" by (simp add: algebra_simps)
  finally have "s * int n + d < int (n * n)" .
  moreover have "0 \<le> s * int n" using assms by simp
    ultimately show ?thesis using assms by simp
  qed
  ultimately show ?thesis by (simp add: rdi_def)
qed

lemma adjacent_loop_returns:
  assumes g: "(i + 1) * numNodes \<le> length generation"
    and cm: "numNodes * numNodes \<le> length cost_matrix"
    and nodes: "\<forall>k<numNodes. 0 \<le> generation ! (i * numNodes + k) \<and> generation ! (i * numNodes + k) < int numNodes"
  shows "i < length generation_cost \<Longrightarrow> 0 \<le> destination \<Longrightarrow> destination < int numNodes \<Longrightarrow>
     \<exists>generation_cost'. adjacent_loop generation_cost generation cost_matrix numNodes i j destination
        = Some generation_cost'"
proof (induction "numNodes - j" arbitrary: j destination generation_cost)
  case 0
  then have "\<not> int j < int numNodes - 1" by simp
  then show ?case by (subst adjacent_loop.simps) simp
next
  case (Suc m)
  show ?case
  proof (cases "int j < int numNodes - 1")
    case False
    then show ?thesis by (subst adjacent_loop.simps) simp
  next
    case True
    then have j1: "j + 1 < numNodes" by simp
    let ?d = "generation ! (i * numNodes + j + 1)"
    have "i * numNodes + j + 1 < (i + 1) * numNodes" using j1 by simp
    with g have r1: "rd generation (i * numNodes + j + 1) = Some ?d" by (simp add: rd_def)
    from nodes j1 have "0 \<le> generation ! (i * numNodes + (j + 1)) \<and> generation ! (i * numNodes + (j + 1)) < int numNodes"
      by blast
    then have d: "0 \<le> ?d" "?d < int numNodes" by (simp_all add: add.assoc)
    note r2 = matrix_index_bound[OF Suc.prems(2,3) d cm]
    let ?c1 = "generation_cost[i := generation_cost ! i + cost_matrix ! nat (destination * int numNodes + ?d)]"
    have r3: "rd generation_cost i = Some (generation_cost ! i)" using Suc.prems(1) by (simp add: rd_def)
    have r4: "wr generation_cost i (generation_cost ! i + cost_matrix ! nat (destination * int numNodes + ?d))
        = Some ?c1" using Suc.prems(1) by (simp add: wr_def)
    have m: "m = numNodes - (j + 1)" using Suc.hyps(2) by simp
    have "i < length ?c1" using Suc.prems(1) by simp
    from Suc.hyps(1)[OF m this d] obtain c2 where
      "adjacent_loop ?c1 generation cost_matrix numNodes i (j + 1) ?d = Some c2" by blast
    with True r1 r2 r3 r4 show ?thesis by (subst adjacent_loop.simps) simp
  qed
qed

lemma cost_loop_returns:
  assumes n: "0 < numNodes"
    and g: "population * numNodes \<le> length generation"
    and cm: "numNodes * numNodes \<le> length cost_matrix"
    and nodes: "\<forall>x<population * numNodes. 0 \<le> generation ! x \<and> generation ! x < int numNodes"
  shows "population \<le> length generation_rank \<Longrightarrow> population \<le> length generation_cost \<Longrightarrow>
     \<exists>res. cost_loop generation_rank generation_cost generation cost_matrix numNodes population i = Some res"
proof (induction "population - i" arbitrary: i generation_rank generation_cost)
  case 0
  then have "\<not> i < population" by simp
  then have "cost_loop generation_rank generation_cost generation cost_matrix numNodes population i
      = Some (generation_rank, generation_cost)" by (subst cost_loop.simps) simp
  then show ?case by blast
next
  case (Suc m)
  then have ip: "i < population" by simp
  then have "(i + 1) * numNodes \<le> population * numNodes" by (intro mult_le_mono1) simp
  then have row: "(i + 1) * numNodes \<le> population * numNodes" .
  with g have gi: "(i + 1) * numNodes \<le> length generation" by simp
  have cell: "\<And>k. k < numNodes \<Longrightarrow> 0 \<le> generation ! (i * numNodes + k) \<and> generation ! (i * numNodes + k) < int numNodes"
  proof -
    fix k assume "k < numNodes"
    then have "i * numNodes + k < (i + 1) * numNodes" by simp
    with row have "i * numNodes + k < population * numNodes" by simp
    with nodes show "0 \<le> generation ! (i * numNodes + k) \<and> generation ! (i * numNodes + k) < int numNodes"
      by simp
  qed
  let ?s = "generation ! (i * numNodes + (numNodes - 1))"
  let ?d = "generation ! (i * numNodes)"
  have idx: "int (i * numNodes) + int numNodes - 1 = int (i * numNodes + (numNodes - 1))"
    using n by (simp add: of_nat_diff)
  have "i * numNodes + (numNodes - 1) < length generation" using gi n by simp
  then have r1: "rdi generation (int (i * numNodes) + int numNodes - 1) = Some ?s"
    unfolding idx by (simp add: rdi_def del: of_nat_add of_nat_mult)
  have r2: "rd generation (i * numNodes) = Some ?d" using gi n by (simp add: rd_def)
  have s: "0 \<le> ?s" "?s < int numNodes" using cell[of "numNodes - 1"] n by simp_all
  have d: "0 \<le> ?d" "?d < int numNodes" using cell[of 0] n by simp_all
  let ?w = "cost_matrix ! nat (?s * int numNodes + ?d)"
  note r3 = matrix_index_bound[OF s d cm]
  have ic: "i < length generation_cost" and ir: "i < length generation_rank"
    using ip Suc.prems by simp_all
  let ?c1 = "generation_cost[i := generation_cost ! i + ?w]"
  have r4: "rd generation_cost i = Some (generation_cost ! i)" using ic by (simp add: rd_def)
  have r5: "wr generation_cost i (generation_cost ! i + ?w) = Some ?c1" using ic by (simp add: wr_def)
  have "\<forall>k<numNodes. 0 \<le> generation ! (i * numNodes + k) \<and> generation ! (i * numNodes + k) < int numNodes"
    using cell by simp
  from adjacent_loop_returns[OF gi cm this, of ?c1 ?d 0] ic d obtain c2 where
    r6: "adjacent_loop ?c1 generation cost_matrix numNodes i 0 ?d = Some c2" by auto
  from adjacent_loop_Some[OF r6] have lc2: "length c2 = length generation_cost" by simp
  have r7: "wr generation_rank i (int i) = Some (generation_rank[i := int i])" using ir by (simp add: wr_def)
  have m: "m = population - (i + 1)" using Suc.hyps(2) by simp
  from Suc.hyps(1)[OF m, of "generation_rank[i := int i]" c2] Suc.prems lc2 obtain res where
    "cost_loop (generation_rank[i := int i]) c2 generation cost_matrix numNodes population (i + 1) = Some res"
    by auto
  with ip r1 r2 r3 r4 r5 r6 r7 show ?case by (subst cost_loop.simps) simp
qed

lemma tour_cells:
  assumes t: "\<forall>a<population. is_tour numNodes (row generation numNodes a)" and n: "0 < numNodes"
  shows "population * numNodes \<le> length generation \<and>
     (\<forall>x<population * numNodes. 0 \<le> generation ! x \<and> generation ! x < int numNodes)"
proof -
  have len: "population * numNodes \<le> length generation"
  proof (cases population)
    case 0
    then show ?thesis by simp
  next
    case (Suc p)
    with t have "is_tour numNodes (row generation numNodes p)" by simp
    from tour_row_bound[OF this] Suc show ?thesis by simp
  qed
  have "\<forall>x<population * numNodes. 0 \<le> generation ! x \<and> generation ! x < int numNodes"
  proof (intro allI impI)
    fix x assume x: "x < population * numNodes"
    let ?a = "x div numNodes" and ?k = "x mod numNodes"
    have a: "?a < population" using x n by (simp add: less_mult_imp_div_less)
    have k: "?k < numNodes" using n by simp
    have xe: "?a * numNodes + ?k = x" by simp
    from t a have ta: "is_tour numNodes (row generation numNodes ?a)" by simp
    from row_nth[OF tour_row_bound[OF ta] k] xe
    have "row generation numNodes ?a ! ?k = generation ! x" by simp
    moreover have "row generation numNodes ?a ! ?k \<in> set (row generation numNodes ?a)"
      using k is_tour_length[OF ta] by (intro nth_mem) simp
    ultimately have "generation ! x \<in> {0..<int numNodes}" using ta by (simp add: is_tour_iff)
    then show "0 \<le> generation ! x \<and> generation ! x < int numNodes" by simp
  qed
  with len show ?thesis by simp
qed

lemma rank_generation_returns:
  assumes "0 < numNodes" "population \<le> length generation_rank" "population \<le> length generation_cost"
    and "numNodes * numNodes \<le> length cost_matrix"
    and "\<forall>a<population. is_tour numNodes (row generation numNodes a)"
  shows "\<exists>res. rank_generation generation_rank generation_cost generation cost_matrix numNodes
            population best_num = Some res"
proof -
  from tour_cells[OF assms(5,1)] have g: "population * numNodes \<le> length generation"
    and c: "\<forall>x<population * numNodes. 0 \<le> generation ! x \<and> generation ! x < int numNodes" by simp_all
  from cost_loop_returns[OF assms(1) g assms(4) c assms(2,3), of 0] obtain res where
    "cost_loop generation_rank generation_cost generation cost_matrix numNodes population 0 = Some res"
    by blast
  then show ?thesis by (cases res) (simp add: rank_generation_def)
qed

lemma move_loop_returns:
  assumes r: "best_num \<le> length generation_rank"
    and v: "\<forall>a<best_num. 0 \<le> generation_rank ! a \<and> generation_rank ! a < int population"
    and g: "population * numNodes \<le> length generation"
  shows "best_num * numNodes \<le> length generation_copy \<Longrightarrow>
     \<exists>c. move_loop generation_rank generation generation_copy numNodes best_num i = Some c"
proof (induction "best_num - i" arbitrary: i generation_copy)
  case 0
  then have "\<not> i < best_num" by simp
  then show ?case by (subst move_loop.simps) simp
next
  case (Suc m)
  then have ib: "i < best_num" by simp
  let ?r = "generation_rank ! i"
  have r1: "rd generation_rank i = Some ?r" using ib r by (simp add: rd_def)
  from v ib have rv: "0 \<le> ?r" "?r < int population" by simp_all
  then have "nat ?r + 1 \<le> population" by simp
  then have "(nat ?r + 1) * numNodes \<le> population * numNodes" by (rule mult_le_mono1)
  with g have "nat ?r * numNodes + numNodes \<le> length generation" by simp
  moreover have "nat (?r * int numNodes) = nat ?r * numNodes" using rv by (simp add: nat_mult_distrib)
  ultimately have b1: "0 \<le> ?r * int numNodes \<and> nat (?r * int numNodes) + numNodes \<le> length generation"
    using rv by simp
  have "(i + 1) * numNodes \<le> best_num * numNodes" using ib by (intro mult_le_mono1) simp
  with Suc.prems have b2: "i * numNodes + numNodes \<le> length generation_copy" by simp
  let ?c1 = "take (i * numNodes) generation_copy @ take numNodes (drop (nat (?r * int numNodes)) generation)
             @ drop (i * numNodes + numNodes) generation_copy"
  have cp: "copy_range generation (?r * int numNodes) numNodes generation_copy (i * numNodes) = Some ?c1"
    using b1 b2 by (simp add: copy_range_def)
  have "length (take numNodes (drop (nat (?r * int numNodes)) generation)) = numNodes"
    using b1 by (simp add: min_def) linarith
  then have l: "length ?c1 = length generation_copy" using b2 by simp
  have m: "m = best_num - (i + 1)" using Suc.hyps(2) by simp
  from Suc.hyps(1)[OF m, of ?c1] Suc.prems l obtain c where
    "move_loop generation_rank generation ?c1 numNodes best_num (i + 1) = Some c" by auto
  with ib r1 cp show ?case by (subst move_loop.simps) simp
qed

text \<open>On a population of tours, with arrays of the sizes \<^verbatim>\<open>genetic_tsp\<close> allocates, the
  ranking and the promotion of the elite rows return.\<close>

lemma ranking_returns:
  assumes "0 < numNodes" "population \<le> length generation_rank" "population \<le> length generation_cost"
    and "numNodes * numNodes \<le> length cost_matrix"
    and "\<forall>a<population. is_tour numNodes (row generation numNodes a)"
    and "best_num \<le> population" "population * numNodes \<le> length generation_copy"
  shows "\<exists>rank' cost' generation' generation_copy'.
      rank_generation generation_rank generation_cost generation cost_matrix numNodes population best_num
        = Some (rank', cost')
    \<and> move_top rank' generation generation_copy numNodes best_num = Some (generation', generation_copy')"
proof -
  from rank_generation_returns[OF assms(1-5), of best_num] obtain rank' cost' where
    rg: "rank_generation generation_rank generation_cost generation cost_matrix numNodes population best_num
        = Some (rank', cost')" by auto
  note e = rank_generation_entries[OF rg] and s = rank_generation_Some[OF rg]
  have r: "best_num \<le> length rank'" using s assms(6) by simp
  have v: "\<forall>a<best_num. 0 \<le> rank' ! a \<and> rank' ! a < int population" using e assms(6) by simp
  from tour_cells[OF assms(5,1)] have g: "population * numNodes \<le> length generation" by simp
  have "best_num * numNodes \<le> population * numNodes" using assms(6) by (rule mult_le_mono1)
  then have c: "best_num * numNodes \<le> length generation_copy" using assms(7) by (rule order_trans)
  from move_loop_returns[OF r v g c, of 0] obtain gc where
    "move_loop rank' generation generation_copy numNodes best_num 0 = Some gc" by blast
  then have "move_top rank' generation generation_copy numNodes best_num = Some (gc, generation)"
    by (simp add: move_top_def)
  with rg show ?thesis by blast
qed

section \<open>The reproduction reads the elite rows only\<close>

lemma take_eq_nth: "take m h = take m g \<Longrightarrow> k < m \<Longrightarrow> h ! k = g ! k"
  by (metis nth_take)

lemma mutation_agree:
  assumes l: "length h = length g" and t: "take m h = take m g" and s: "son + numNodes \<le> m"
  shows "(mutation g son numNodes mutatProb rs = None \<longrightarrow> mutation h son numNodes mutatProb rs = None)
     \<and> (\<forall>g' rs'. mutation g son numNodes mutatProb rs = Some (g', rs') \<longrightarrow>
           (\<exists>h'. mutation h son numNodes mutatProb rs = Some (h', rs')
                \<and> length h' = length g' \<and> take m h' = take m g'))"
proof (cases rs)
  case Nil
  then show ?thesis by (simp add: mutation_def)
next
  case (Cons r rs1)
  show ?thesis
  proof (cases "mutation_test r mutatProb")
    case False
    with Cons l t show ?thesis by (simp add: mutation_def)
  next
    case True
    show ?thesis
    proof (cases "rand_mod numNodes rs1")
      case None
      with Cons True show ?thesis by (simp add: mutation_def)
    next
      case (Some a)
      obtain swap1 rs2 where a: "a = (swap1, rs2)" by (cases a)
      show ?thesis
      proof (cases "swap2_loop numNodes swap1 rs2")
        case None
        with Cons True Some a show ?thesis by (simp add: mutation_def)
      next
        case sw: (Some b)
        obtain swap2 rs3 where b: "b = (swap2, rs3)" by (cases b)
        have s1: "swap1 < numNodes" using rand_mod_Some Some a by blast
        have s2: "swap2 < numNodes" using swap2_loop_Some sw b by blast
        have e1: "h ! (son + swap1) = g ! (son + swap1)" using take_eq_nth[OF t] s s1 by simp
        have e2: "h ! (son + swap2) = g ! (son + swap2)" using take_eq_nth[OF t] s s2 by simp
        have m: "\<And>x. mutation x son numNodes mutatProb rs =
            (if son + swap1 < length x \<and> son + swap2 < length x
             then Some (x[son + swap1 := x ! (son + swap2), son + swap2 := x ! (son + swap1)], rs3)
             else None)"
          using Cons True Some a sw b by (simp add: mutation_def rd_def wr_def)
        have "take m (h[son + swap1 := g ! (son + swap2), son + swap2 := g ! (son + swap1)])
            = take m (g[son + swap1 := g ! (son + swap2), son + swap2 := g ! (son + swap1)])"
          using t by (simp add: take_update_swap)
        then show ?thesis unfolding m using l e1 e2 by simp
      qed
    qed
  qed
qed

lemma crossover_agree:
  assumes t1: "is_tour numNodes (row g numNodes parent1)"
    and t2: "is_tour numNodes (row g numNodes parent2)"
    and s: "son + numNodes \<le> length g"
    and d1: "(parent1 + 1) * numNodes \<le> son"
    and d2: "(parent2 + 1) * numNodes \<le> son"
    and l: "length h = length g" and t: "take son h = take son g"
  shows "(crossover_firstHalf_withMutation g parent1 parent2 son numNodes mutatProb rs = None \<longrightarrow>
            crossover_firstHalf_withMutation h parent1 parent2 son numNodes mutatProb rs = None)
     \<and> (\<forall>g' rs'. crossover_firstHalf_withMutation g parent1 parent2 son numNodes mutatProb rs = Some (g', rs') \<longrightarrow>
           (\<exists>h'. crossover_firstHalf_withMutation h parent1 parent2 son numNodes mutatProb rs = Some (h', rs')
                \<and> length h' = length g' \<and> take (son + numNodes) h' = take (son + numNodes) g'))"
proof -
  have r1: "row h numNodes parent1 = row g numNodes parent1"
    unfolding row_def using take_eq_mid[OF t, of "parent1 * numNodes" numNodes] d1 by simp
  have r2: "row h numNodes parent2 = row g numNodes parent2"
    unfolding row_def using take_eq_mid[OF t, of "parent2 * numNodes" numNodes] d2 by simp
  from crossover_firstHalf_spec[OF t1 t2 s] d1 d2 obtain g1 where
    g1: "crossover_firstHalf g parent1 parent2 son numNodes = Some g1"
    and lg: "length g1 = length g"
    and fg: "\<forall>x. x < son \<or> son + numNodes \<le> x \<longrightarrow> g1 ! x = g ! x"
    and cg: "take numNodes (drop son g1) = child numNodes (row g numNodes parent1) (row g numNodes parent2)"
    by blast
  have sh: "son + numNodes \<le> length h" using s l by simp
  from crossover_firstHalf_spec[of numNodes h parent1 parent2 son] t1 t2 r1 r2 sh d1 d2 obtain h1 where
    h1: "crossover_firstHalf h parent1 parent2 son numNodes = Some h1"
    and lh: "length h1 = length h"
    and fh: "\<forall>x. x < son \<or> son + numNodes \<le> x \<longrightarrow> h1 ! x = h ! x"
    and ch: "take numNodes (drop son h1) = child numNodes (row g numNodes parent1) (row g numNodes parent2)"
    by auto
  have tk: "take (son + numNodes) h1 = take (son + numNodes) g1"
  proof (rule nth_equalityI)
    show "length (take (son + numNodes) h1) = length (take (son + numNodes) g1)"
      using lg lh l by simp
  next
    fix x assume "x < length (take (son + numNodes) h1)"
    then have x: "x < son + numNodes" by simp
    show "take (son + numNodes) h1 ! x = take (son + numNodes) g1 ! x"
    proof (cases "x < son")
      case True
      then have "h1 ! x = h ! x" "g1 ! x = g ! x" using fh fg by simp_all
      moreover have "h ! x = g ! x" using take_eq_nth[OF t True] .
      ultimately show ?thesis using x by simp
    next
      case False
      then have xs: "x - son < numNodes" "son + (x - son) = x" using x by simp_all
      have "h1 ! x = take numNodes (drop son h1) ! (x - son)" using xs lh sh by simp
      moreover have "g1 ! x = take numNodes (drop son g1) ! (x - son)" using xs lg s by simp
      ultimately show ?thesis using ch cg x by simp
    qed
  qed
  have l1: "length h1 = length g1" using lg lh l by simp
  from mutation_agree[OF l1 tk, of son numNodes mutatProb rs] g1 h1
  show ?thesis by (simp add: crossover_firstHalf_withMutation_def)
qed

lemma generate_loop_agree:
  "length h = length generation \<Longrightarrow> length generation = population * numNodes \<Longrightarrow>
   take ((best_num + i) * numNodes) h = take ((best_num + i) * numNodes) generation \<Longrightarrow>
   \<forall>a<best_num. is_tour numNodes (row generation numNodes a) \<Longrightarrow>
     generate_loop h population best_num numNodes mutatProb rs i
       = generate_loop generation population best_num numNodes mutatProb rs i"
proof (induction generation population best_num numNodes mutatProb rs i arbitrary: h
    rule: generate_loop.induct)
  case (1 generation population best_num numNodes mutatProb rs i)
  show ?case
  proof (cases "i < population - best_num")
    case False
    then have "population * numNodes \<le> (best_num + i) * numNodes" by (intro mult_le_mono1) simp
    with "1.prems"(1,2,3) have "h = generation" by simp
    then show ?thesis by simp
  next
    case True
    let ?son = "(best_num + i) * numNodes"
    show ?thesis
    proof (cases "select_parents best_num i rs")
      case None
      with True show ?thesis
        by (subst generate_loop.simps, subst (2) generate_loop.simps) simp
    next
      case (Some sp)
      obtain parent1 parent2 rs1 where sp: "sp = (parent1, parent2, rs1)" by (cases sp)
      from select_parents_bounds[OF Some[unfolded sp]] have pb: "parent1 < best_num" "parent2 < best_num"
        by simp_all
      have t1: "is_tour numNodes (row generation numNodes parent1)"
        and t2: "is_tour numNodes (row generation numNodes parent2)"
        using pb "1.prems"(4) by simp_all
      have "(best_num + i + 1) * numNodes \<le> population * numNodes"
        using True by (intro mult_le_mono1) simp
      with "1.prems"(2) have s: "?son + numNodes \<le> length generation" by simp
      have d: "\<And>p. p < best_num \<Longrightarrow> (p + 1) * numNodes \<le> ?son"
        by (intro mult_le_mono1) simp
      note ag = crossover_agree[OF t1 t2 s d[OF pb(1)] d[OF pb(2)] "1.prems"(1,3), of mutatProb rs1]
      show ?thesis
      proof (cases "crossover_firstHalf_withMutation generation parent1 parent2 ?son numNodes mutatProb rs1")
        case None
        with ag have "crossover_firstHalf_withMutation h parent1 parent2 ?son numNodes mutatProb rs1 = None"
          by simp
        with None True Some sp show ?thesis
          by (subst generate_loop.simps, subst (2) generate_loop.simps) simp
      next
        case cr: (Some res)
        obtain g1 rs2 where res: "res = (g1, rs2)" by (cases res)
        from ag cr res obtain h1 where
          ch: "crossover_firstHalf_withMutation h parent1 parent2 ?son numNodes mutatProb rs1 = Some (h1, rs2)"
          and l1: "length h1 = length g1"
          and tk: "take (?son + numNodes) h1 = take (?son + numNodes) g1" by auto
        from crossover_frame[OF cr[unfolded res]] have
          lg: "length g1 = length generation" and fr: "\<forall>x<?son. g1 ! x = generation ! x" by simp_all
        have el: "\<forall>a<best_num. is_tour numNodes (row g1 numNodes a)"
        proof (intro allI impI)
          fix a assume a: "a < best_num"
          then have "(a + 1) * numNodes \<le> ?son" by (rule d)
          then have "\<forall>x. a * numNodes \<le> x \<and> x < (a + 1) * numNodes \<longrightarrow> g1 ! x = generation ! x"
            using fr by auto
          from row_cong[OF lg this] "1.prems"(4) a show "is_tour numNodes (row g1 numNodes a)" by simp
        qed
        have tk': "take ((best_num + (i + 1)) * numNodes) h1 = take ((best_num + (i + 1)) * numNodes) g1"
          using tk by (simp add: algebra_simps)
        have x: "(parent1, parent2, rs1) = (parent1, parent2, rs1)" "(parent2, rs1) = (parent2, rs1)"
          "(g1, rs2) = (g1, rs2)" by simp_all
        have lg': "length g1 = population * numNodes" using lg "1.prems"(2) by simp
        from "1.IH"[OF True Some[unfolded sp] x(1) x(2) refl cr[unfolded res] x(3) l1 lg' tk' el]
        have "generate_loop h1 population best_num numNodes mutatProb rs2 (i + 1)
            = generate_loop g1 population best_num numNodes mutatProb rs2 (i + 1)" .
        with True Some sp cr res ch show ?thesis
          by (subst generate_loop.simps, subst (2) generate_loop.simps) simp
      qed
    qed
  qed
qed

lemma generate_overwrites:
  assumes "length h = length generation" "length generation = population * numNodes"
    and "take (best_num * numNodes) h = take (best_num * numNodes) generation"
    and "\<forall>a<best_num. is_tour numNodes (row generation numNodes a)"
  shows "generate h population best_num numNodes mutatProb rs
       = generate generation population best_num numNodes mutatProb rs"
  unfolding generate_def using generate_loop_agree[of h generation population numNodes best_num 0] assms
  by simp

section \<open>The claims on the reproduction and the promotion\<close>

text \<open>
  C9. \<^verbatim>\<open>move_top\<close> copies the rows ranked first, \<open>best_num\<close> of them, to the front of the
  scratch buffer and exchanges the two pointers. After the call \<^verbatim>\<open>generation_copy\<close> is
  the former current buffer, untouched, and \<^verbatim>\<open>generation\<close> is the former scratch buffer
  with its rows below \<open>best_num\<close> replaced: its cells from \<open>best_num * numNodes\<close> on are
  those the scratch buffer held before the call (whatever they were: the buffer is not
  initialised before the first call). At the next call the roles are exchanged again:
  the buffer that is current then becomes the scratch one, and the rows from
  \<open>best_num\<close> on of the new current buffer are those of the current buffer of this
  call. \<^verbatim>\<open>generate\<close> overwrites every one of the stale rows: with the elite rows being
  tours in a buffer of \<open>population\<close> rows, its result is the same from any other buffer
  that has the same elite rows.
\<close>

theorem move_top_spec:
  assumes "move_top generation_rank generation generation_copy numNodes best_num
             = Some (generation', generation_copy')"
  shows "generation_copy' = generation
     \<and> length generation' = length generation_copy
     \<and> (\<forall>a<best_num. row generation' numNodes a = row generation numNodes (nat (generation_rank ! a)))
     \<and> drop (best_num * numNodes) generation' = drop (best_num * numNodes) generation_copy
     \<and> (\<forall>rank2 g1 g2 c2. move_top rank2 g1 generation_copy' numNodes best_num = Some (g2, c2) \<longrightarrow>
           c2 = g1 \<and> drop (best_num * numNodes) g2 = drop (best_num * numNodes) generation)
     \<and> (\<forall>population mutatProb rs h.
           length generation' = population * numNodes \<and>
           (\<forall>a<best_num. is_tour numNodes (row generation' numNodes a)) \<and>
           length h = length generation' \<and>
           take (best_num * numNodes) h = take (best_num * numNodes) generation' \<longrightarrow>
           generate h population best_num numNodes mutatProb rs
             = generate generation' population best_num numNodes mutatProb rs)"
proof -
  have mv: "\<And>r g c g' c'. move_top r g c numNodes best_num = Some (g', c') \<Longrightarrow>
      c' = g \<and> length g' = length c
      \<and> (\<forall>a<best_num. row g' numNodes a = row g numNodes (nat (r ! a)))
      \<and> drop (best_num * numNodes) g' = drop (best_num * numNodes) c"
  proof -
    fix r g c g' c'
    assume "move_top r g c numNodes best_num = Some (g', c')"
    then have ml: "move_loop r g c numNodes best_num 0 = Some g'" and c': "c' = g"
      by (auto simp: move_top_def bind_eq_Some_conv)
    note f = move_loop_Some[OF ml]
    have "\<forall>a<best_num. row g' numNodes a = row g numNodes (nat (r ! a))"
    proof (intro allI impI)
      fix a assume "a < best_num"
      with f have "0 \<le> r ! a * int numNodes"
        and "row g' numNodes a = take numNodes (drop (nat (r ! a * int numNodes)) g)" by simp_all
      with row_of_rank[of "r ! a" numNodes g]
      show "row g' numNodes a = row g numNodes (nat (r ! a))" by simp
    qed
    with f c' show "c' = g \<and> length g' = length c
      \<and> (\<forall>a<best_num. row g' numNodes a = row g numNodes (nat (r ! a)))
      \<and> drop (best_num * numNodes) g' = drop (best_num * numNodes) c" by simp
  qed
  note a = mv[OF assms]
  have b: "\<forall>rank2 g1 g2 c2. move_top rank2 g1 generation_copy' numNodes best_num = Some (g2, c2) \<longrightarrow>
           c2 = g1 \<and> drop (best_num * numNodes) g2 = drop (best_num * numNodes) generation"
    using mv a by blast
  have c: "\<forall>population mutatProb rs h.
           length generation' = population * numNodes \<and>
           (\<forall>a<best_num. is_tour numNodes (row generation' numNodes a)) \<and>
           length h = length generation' \<and>
           take (best_num * numNodes) h = take (best_num * numNodes) generation' \<longrightarrow>
           generate h population best_num numNodes mutatProb rs
             = generate generation' population best_num numNodes mutatProb rs"
    using generate_overwrites by blast
  from a b c show ?thesis by blast
qed

theorem move_top_spec_witness:
  "move_top [1, 0, 2] [0,1,2,3, 0,1,3,2, 0,2,1,3] [9,9,9,9, 8,8,8,8, 7,7,7,7] 4 2
     = Some ([0,1,3,2, 0,1,2,3, 7,7,7,7], [0,1,2,3, 0,1,3,2, 0,2,1,3])
   \<and> drop (2 * 4) [0,1,3,2, 0,1,2,3, 7,7,7,7] = drop (2 * 4) [9,9,9,9, 8,8,8,8, 7,7,7,7::int]
   \<and> generate [0,1,3,2, 0,1,2,3, 5,5,5,5] 3 2 4 (1 / 10) [5, 3, 1, 1, 2]
       = generate [0,1,3,2, 0,1,2,3, 7,7,7,7] 3 2 4 (1 / 10) [5, 3, 1, 1, 2]"
proof -
  have h: "move_top [1, 0, 2] [0,1,2,3, 0,1,3,2, 0,2,1,3] [9,9,9,9, 8,8,8,8, 7,7,7,7] 4 2
     = Some ([0,1,3,2, 0,1,2,3, 7,7,7,7], [0,1,2,3, 0,1,3,2, 0,2,1,3])"
    by code_simp
  note t = move_top_spec[OF h]
  from t have d: "drop (2 * 4) [0,1,3,2, 0,1,2,3, 7,7,7,7] = drop (2 * 4) [9,9,9,9, 8,8,8,8, 7,7,7,7::int]"
    by blast
  have e: "\<forall>a<2. is_tour 4 (row [0,1,3,2, 0,1,2,3, 7,7,7,7] 4 a)"
    by (simp add: less_Suc_eq numeral_2_eq_2 row_def is_tour_def)
  have "length [0,1,3,2, 0,1,2,3, 7,7,7,7::int] = 3 * 4 \<and>
        (\<forall>a<2. is_tour 4 (row [0,1,3,2, 0,1,2,3, 7,7,7,7] 4 a)) \<and>
        length [0,1,3,2, 0,1,2,3, 5,5,5,5::int] = length [0,1,3,2, 0,1,2,3, 7,7,7,7::int] \<and>
        take (2 * 4) [0,1,3,2, 0,1,2,3, 5,5,5,5::int] = take (2 * 4) [0,1,3,2, 0,1,2,3, 7,7,7,7]"
    using e by simp
  with t have "generate [0,1,3,2, 0,1,2,3, 5,5,5,5] 3 2 4 (1 / 10) [5, 3, 1, 1, 2]
       = generate [0,1,3,2, 0,1,2,3, 7,7,7,7] 3 2 4 (1 / 10) [5, 3, 1, 1, 2]"
    by blast
  with h d show ?thesis by simp
qed

text \<open>
  C7. A call of \<^verbatim>\<open>generate\<close> that returns leaves the length of the buffer and every cell
  below \<open>best_num * numNodes\<close> as they were: each of the first \<open>best_num\<close> rows is the same
  after the call, and a cell that differs lies in a row from \<open>best_num\<close> on (below
  \<open>population\<close>, the buffer having \<open>population\<close> rows). So the elite rows go unchanged
  into the next ranking.
\<close>

theorem generate_keeps_elite:
  assumes "generate generation population best_num numNodes mutatProb rs = Some (generation', rs')"
  shows "length generation' = length generation
     \<and> take (best_num * numNodes) generation' = take (best_num * numNodes) generation
     \<and> (\<forall>a<best_num. row generation' numNodes a = row generation numNodes a)
     \<and> (length generation = population * numNodes \<longrightarrow>
          (\<forall>x<length generation. generation' ! x \<noteq> generation ! x \<longrightarrow>
              best_num * numNodes \<le> x \<and> x < population * numNodes))"
proof -
  from generate_loop_frame[OF assms[unfolded generate_def]] have
    l: "length generation' = length generation"
    and f: "\<forall>x < best_num * numNodes. generation' ! x = generation ! x" by simp_all
  have t: "take (best_num * numNodes) generation' = take (best_num * numNodes) generation"
    using l f by (intro nth_equalityI) simp_all
  have r: "\<forall>a<best_num. row generation' numNodes a = row generation numNodes a"
  proof (intro allI impI)
    fix a assume "a < best_num"
    then have "(a + 1) * numNodes \<le> best_num * numNodes" by (intro mult_le_mono1) simp
    then show "row generation' numNodes a = row generation numNodes a"
      unfolding row_def using take_eq_mid[OF t, of "a * numNodes" numNodes] by simp
  qed
  have "\<forall>x<length generation. generation' ! x \<noteq> generation ! x \<longrightarrow> best_num * numNodes \<le> x"
    using f by (metis linorder_not_less)
  with l t r show ?thesis by simp
qed

theorem generate_keeps_elite_witness:
  "generate [0,1,3,2, 0,1,2,3, 7,7,7,7] 3 2 4 (1 / 10) [5, 3, 1, 1, 2]
     = Some ([0,1,3,2, 0,1,2,3, 0,2,1,3], [])
   \<and> take (2 * 4) [0,1,3,2, 0,1,2,3, 0,2,1,3] = take (2 * 4) [0,1,3,2, 0,1,2,3, 7,7,7,7::int]"
proof -
  have h: "generate [0,1,3,2, 0,1,2,3, 7,7,7,7] 3 2 4 (1 / 10) [5, 3, 1, 1, 2]
     = Some ([0,1,3,2, 0,1,2,3, 0,2,1,3], [])"
    by code_simp
  from generate_keeps_elite[OF h]
  have "take (2 * 4) [0,1,3,2, 0,1,2,3, 0,2,1,3] = take (2 * 4) [0,1,3,2, 0,1,2,3, 7,7,7,7::int]"
    by blast
  with h show ?thesis by simp
qed

text \<open>
  C1. For two parent rows that are tours (permutations of the nodes \<open>0\<close> to
  \<open>numNodes - 1\<close>) and a child row inside the buffer that overlaps neither, the two
  loops of the crossover have a result: the child row is the first \<open>numNodes div 2\<close>
  nodes of the first parent followed by the nodes of the second parent not among
  them, in order, and it is a tour. After the mutation (an exchange of two positions
  of the child row, or nothing) the child row is a tour again: its length is
  \<open>numNodes\<close>, it has no duplicate, and its nodes are exactly \<open>0\<close> to \<open>numNodes - 1\<close>.
  Hence the population stays made of tours from one generation to the next: when
  every row of the population is a tour, then after the ranking, the promotion of the
  elite rows and the reproduction every row is a tour again.
\<close>

theorem crossover_child_is_permutation:
  "(is_tour numNodes (row generation numNodes parent1) \<and>
    is_tour numNodes (row generation numNodes parent2) \<and>
    son + numNodes \<le> length generation \<and>
    ((parent1 + 1) * numNodes \<le> son \<or> son + numNodes \<le> parent1 * numNodes) \<and>
    ((parent2 + 1) * numNodes \<le> son \<or> son + numNodes \<le> parent2 * numNodes) \<longrightarrow>
      (\<exists>g. crossover_firstHalf generation parent1 parent2 son numNodes = Some g \<and>
           take numNodes (drop son g)
             = child numNodes (row generation numNodes parent1) (row generation numNodes parent2) \<and>
           is_tour numNodes (take numNodes (drop son g))) \<and>
      (\<forall>mutatProb rs generation' rs'.
         crossover_firstHalf_withMutation generation parent1 parent2 son numNodes mutatProb rs
           = Some (generation', rs') \<longrightarrow>
         length (take numNodes (drop son generation')) = numNodes \<and>
         distinct (take numNodes (drop son generation')) \<and>
         set (take numNodes (drop son generation')) = {0..<int numNodes} \<and>
         mset (take numNodes (drop son generation')) = mset (map int [0..<numNodes])))
   \<and> ((\<forall>a<population. is_tour numNodes (row generation numNodes a)) \<and>
       rank_generation generation_rank generation_cost generation cost_matrix numNodes population best_num
         = Some (rank', cost') \<and>
       move_top rank' generation generation_copy numNodes best_num = Some (g1, c1) \<and>
       best_num \<le> population \<and> population * numNodes \<le> length generation_copy \<and>
       generate g1 population best_num numNodes prob draws = Some (g2, draws') \<longrightarrow>
         (\<forall>a<population. is_tour numNodes (row g2 numNodes a)))"
proof (intro conjI impI)
  assume h: "is_tour numNodes (row generation numNodes parent1) \<and>
    is_tour numNodes (row generation numNodes parent2) \<and>
    son + numNodes \<le> length generation \<and>
    ((parent1 + 1) * numNodes \<le> son \<or> son + numNodes \<le> parent1 * numNodes) \<and>
    ((parent2 + 1) * numNodes \<le> son \<or> son + numNodes \<le> parent2 * numNodes)"
  then have t1: "is_tour numNodes (row generation numNodes parent1)"
    and t2: "is_tour numNodes (row generation numNodes parent2)"
    and s: "son + numNodes \<le> length generation"
    and d1: "(parent1 + 1) * numNodes \<le> son \<or> son + numNodes \<le> parent1 * numNodes"
    and d2: "(parent2 + 1) * numNodes \<le> son \<or> son + numNodes \<le> parent2 * numNodes" by simp_all
  from crossover_firstHalf_spec[OF t1 t2 s d1 d2] child_is_tour[OF t1 t2]
  show "\<exists>g. crossover_firstHalf generation parent1 parent2 son numNodes = Some g \<and>
           take numNodes (drop son g)
             = child numNodes (row generation numNodes parent1) (row generation numNodes parent2) \<and>
           is_tour numNodes (take numNodes (drop son g))" by auto
  show "\<forall>mutatProb rs generation' rs'.
         crossover_firstHalf_withMutation generation parent1 parent2 son numNodes mutatProb rs
           = Some (generation', rs') \<longrightarrow>
         length (take numNodes (drop son generation')) = numNodes \<and>
         distinct (take numNodes (drop son generation')) \<and>
         set (take numNodes (drop son generation')) = {0..<int numNodes} \<and>
         mset (take numNodes (drop son generation')) = mset (map int [0..<numNodes])"
  proof (intro allI impI)
    fix mutatProb rs generation' rs'
    assume "crossover_firstHalf_withMutation generation parent1 parent2 son numNodes mutatProb rs
           = Some (generation', rs')"
    from crossover_child_tour[OF t1 t2 s d1 d2 this]
    have t: "is_tour numNodes (take numNodes (drop son generation'))" by simp
    then show "length (take numNodes (drop son generation')) = numNodes \<and>
         distinct (take numNodes (drop son generation')) \<and>
         set (take numNodes (drop son generation')) = {0..<int numNodes} \<and>
         mset (take numNodes (drop son generation')) = mset (map int [0..<numNodes])"
      using is_tour_length[OF t] is_tour_iff[of numNodes] is_tour_perm[of numNodes] by blast
  qed
next
  assume h: "(\<forall>a<population. is_tour numNodes (row generation numNodes a)) \<and>
       rank_generation generation_rank generation_cost generation cost_matrix numNodes population best_num
         = Some (rank', cost') \<and>
       move_top rank' generation generation_copy numNodes best_num = Some (g1, c1) \<and>
       best_num \<le> population \<and> population * numNodes \<le> length generation_copy \<and>
       generate g1 population best_num numNodes prob draws = Some (g2, draws')"
  then have all: "\<forall>a<population. is_tour numNodes (row generation numNodes a)"
    and rg: "rank_generation generation_rank generation_cost generation cost_matrix numNodes population best_num
         = Some (rank', cost')"
    and mt: "move_top rank' generation generation_copy numNodes best_num = Some (g1, c1)"
    and b: "best_num \<le> population" and l: "population * numNodes \<le> length generation_copy"
    and ge: "generate g1 population best_num numNodes prob draws = Some (g2, draws')" by simp_all
  from mt have ml: "move_loop rank' generation generation_copy numNodes best_num 0 = Some g1"
    by (auto simp: move_top_def bind_eq_Some_conv)
  note f = move_loop_Some[OF ml]
  note re = rank_generation_entries[OF rg]
  have el: "\<forall>a<best_num + 0. is_tour numNodes (row g1 numNodes a)"
  proof (intro allI impI)
    fix a assume "a < best_num + 0"
    then have a: "a < best_num" by simp
    with f have "0 \<le> rank' ! a * int numNodes"
      and "row g1 numNodes a = take numNodes (drop (nat (rank' ! a * int numNodes)) generation)" by simp_all
    with row_of_rank[of "rank' ! a" numNodes generation]
    have r: "row g1 numNodes a = row generation numNodes (nat (rank' ! a))" by simp
    from a b re have "0 \<le> rank' ! a" "rank' ! a < int population" by simp_all
    then have "nat (rank' ! a) < population" by simp
    with all r show "is_tour numNodes (row g1 numNodes a)" by simp
  qed
  have l1: "population * numNodes \<le> length g1" using f l by simp
  from generate_loop_tours[OF ge[unfolded generate_def] el l1]
  show "\<forall>a<population. is_tour numNodes (row g2 numNodes a)" by simp
qed

theorem crossover_child_is_permutation_witness:
  "crossover_firstHalf_withMutation [0,1,2,3, 0,1,3,2, 0,2,1,3] 0 1 8 4 1 [0, 6, 2, 3]
      = Some ([0,1,2,3, 0,1,3,2, 0,1,2,3], [])
   \<and> distinct (take 4 (drop 8 [0,1,2,3, 0,1,3,2, 0,1,2,3::int]))
   \<and> set (take 4 (drop 8 [0,1,2,3, 0,1,3,2, 0,1,2,3::int])) = {0..<int 4}
   \<and> rank_generation [7, 7, 7] [0, 0, 0] [0,1,2,3, 0,1,3,2, 0,2,1,3]
        [0,10,15,20, 10,0,35,25, 15,35,0,30, 20,25,30,0] 4 3 2 = Some ([1, 0, 2], [80, 95, 95])
   \<and> move_top [1, 0, 2] [0,1,2,3, 0,1,3,2, 0,2,1,3] [9,9,9,9, 8,8,8,8, 7,7,7,7] 4 2
        = Some ([0,1,3,2, 0,1,2,3, 7,7,7,7], [0,1,2,3, 0,1,3,2, 0,2,1,3])
   \<and> generate [0,1,3,2, 0,1,2,3, 7,7,7,7] 3 2 4 (1 / 10) [5, 3, 1, 1, 2]
        = Some ([0,1,3,2, 0,1,2,3, 0,2,1,3], [])
   \<and> is_tour 4 (row [0,1,3,2, 0,1,2,3, 0,2,1,3] 4 2)"
proof -
  let ?G = "[0,1,2,3, 0,1,3,2, 0,2,1,3::int]"
  let ?cm = "[0,10,15,20, 10,0,35,25, 15,35,0,30, 20,25,30,0::int]"
  note t = crossover_child_is_permutation[of 4 ?G 0 1 8 3 "[7, 7, 7]" "[0, 0, 0]" ?cm 2
      "[1, 0, 2]" "[80, 95, 95]" "[9,9,9,9, 8,8,8,8, 7,7,7,7]" "[0,1,3,2, 0,1,2,3, 7,7,7,7]" ?G
      "1 / 10" "[5, 3, 1, 1, 2]" "[0,1,3,2, 0,1,2,3, 0,2,1,3]" "[]"]
  have rows: "\<forall>a<3. is_tour 4 (row ?G 4 a)"
    by (simp add: less_Suc_eq numeral_3_eq_3 row_def is_tour_def)
  have h1: "is_tour 4 (row ?G 4 0) \<and> is_tour 4 (row ?G 4 1) \<and> 8 + 4 \<le> length ?G \<and>
      ((0 + 1) * 4 \<le> (8::nat) \<or> 8 + 4 \<le> 0 * (4::nat)) \<and> ((1 + 1) * 4 \<le> (8::nat) \<or> 8 + 4 \<le> 1 * (4::nat))"
    using rows by simp
  have c: "crossover_firstHalf_withMutation ?G 0 1 8 4 1 [0, 6, 2, 3]
      = Some ([0,1,2,3, 0,1,3,2, 0,1,2,3], [])" by code_simp
  from t h1 c have p1: "distinct (take 4 (drop 8 [0,1,2,3, 0,1,3,2, 0,1,2,3::int]))
     \<and> set (take 4 (drop 8 [0,1,2,3, 0,1,3,2, 0,1,2,3::int])) = {0..<int 4}" by blast
  have r: "rank_generation [7, 7, 7] [0, 0, 0] ?G ?cm 4 3 2 = Some ([1, 0, 2], [80, 95, 95])"
    by code_simp
  have m: "move_top [1, 0, 2] ?G [9,9,9,9, 8,8,8,8, 7,7,7,7] 4 2
        = Some ([0,1,3,2, 0,1,2,3, 7,7,7,7], ?G)" by code_simp
  have g: "generate [0,1,3,2, 0,1,2,3, 7,7,7,7] 3 2 4 (1 / 10) [5, 3, 1, 1, 2]
        = Some ([0,1,3,2, 0,1,2,3, 0,2,1,3], [])" by code_simp
  have b: "(2::nat) \<le> 3 \<and> 3 * 4 \<le> length [9,9,9,9, 8,8,8,8, 7,7,7,7::int]" by simp
  from t rows r m g b have "\<forall>a<3. is_tour 4 (row [0,1,3,2, 0,1,2,3, 0,2,1,3] 4 a)" by blast
  moreover have "(2::nat) < 3" by simp
  ultimately have p2: "is_tour 4 (row [0,1,3,2, 0,1,2,3, 0,2,1,3] 4 2)" by blast
  from c p1 r m g p2 show ?thesis by blast
qed

end
